theory Spec2Isabelle
  imports Main "HOL-Library.Sublist"
begin

section \<open>Values, paths and errors\<close>

text \<open>
  A shallow embedding of \<^verbatim>\<open>MatplotlibVersionedWriter\<close>
  (\<^verbatim>\<open>kedro/extras/datasets/matplotlib/matplotlib_versioned_writer.py\<close>).
  Paths are strings (a \<^verbatim>\<open>PurePosixPath\<close> is kept in its string form), file contents are
  byte strings, and the keyword-argument dictionaries of Python are association lists in
  insertion order whose keys are pairwise different. The operations on dictionaries are
  written for any type of values, as they are used on nested values and on references.
\<close>

type_synonym path = string
type_synonym bytes = string

datatype pyval =
    PyNone
  | PyBool bool
  | PyInt int
  | PyStr string
  | PyDict "(string \<times> pyval) list"

type_synonym dict = "(string \<times> pyval) list"

text \<open>Python's truth value of an object, as \<^verbatim>\<open>not\<close> and \<^verbatim>\<open>or\<close> test it.\<close>

fun truthy :: "pyval \<Rightarrow> bool" where
  "truthy PyNone = False"
| "truthy (PyBool b) = b"
| "truthy (PyInt i) = (i \<noteq> 0)"
| "truthy (PyStr s) = (s \<noteq> [])"
| "truthy (PyDict d) = (d \<noteq> [])"

text \<open>\<^verbatim>\<open>d.get(k)\<close>: the value stored under the key, or \<^verbatim>\<open>None\<close>.\<close>

definition dict_get :: "dict \<Rightarrow> string \<Rightarrow> pyval" where
  "dict_get d k = (case map_of d k of None \<Rightarrow> PyNone | Some v \<Rightarrow> v)"

text \<open>\<^verbatim>\<open>d[k] = v\<close>: an existing key keeps its place, a new key goes last.\<close>

fun dict_set :: "(string \<times> 'v) list \<Rightarrow> string \<Rightarrow> 'v \<Rightarrow> (string \<times> 'v) list" where
  "dict_set [] k v = [(k, v)]"
| "dict_set ((k', v') # d) k v =
     (if k' = k then (k, v) # d else (k', v') # dict_set d k v)"

text \<open>\<^verbatim>\<open>d.pop(k, default)\<close>: the value removed (or the default) and the dictionary left.\<close>

definition dict_pop :: "(string \<times> 'v) list \<Rightarrow> string \<Rightarrow> 'v \<Rightarrow> 'v \<times> (string \<times> 'v) list" where
  "dict_pop d k dflt =
     (case map_of d k of
        None \<Rightarrow> (dflt, d)
      | Some v \<Rightarrow> (v, filter (\<lambda>kv. fst kv \<noteq> k) d))"

text \<open>\<^verbatim>\<open>d.setdefault(k, v)\<close>: stores \<open>v\<close> only when the key is absent.\<close>

definition dict_setdefault :: "(string \<times> 'v) list \<Rightarrow> string \<Rightarrow> 'v \<Rightarrow> (string \<times> 'v) list" where
  "dict_setdefault d k v = (if k \<in> set (map fst d) then d else d @ [(k, v)])"

text \<open>\<^verbatim>\<open>d.update(e)\<close>: the items of \<open>e\<close> are stored one after the other.\<close>

fun dict_update :: "(string \<times> 'v) list \<Rightarrow> (string \<times> 'v) list \<Rightarrow> (string \<times> 'v) list" where
  "dict_update d [] = d"
| "dict_update d ((k, v) # e) = dict_update (dict_set d k v) e"

text \<open>\<^verbatim>\<open>copy.deepcopy(x) or {}\<close> on an optional dictionary.\<close>

definition or_empty :: "(string \<times> 'v) list option \<Rightarrow> (string \<times> 'v) list" where
  "or_empty x = (case x of None \<Rightarrow> [] | Some d \<Rightarrow> d)"

text \<open>
  The exceptions the writer can leave with. \<open>DataSetError\<close> is the writer's own error
  class; the other constructors carry what an external collaborator raised.
\<close>

datatype error =
    DataSetError string
  | AttributeError string
  | TypeError string
  | EncoderError string
  | FilesystemError string

text \<open>\<^verbatim>\<open>"{}".format(index)\<close>: the decimal numeral of a natural number.\<close>

definition digit_char :: "nat \<Rightarrow> char" where
  "digit_char d = ''0123456789'' ! d"

function str_of_nat :: "nat \<Rightarrow> string" where
  "str_of_nat n =
     (if n < 10 then [digit_char n] else str_of_nat (n div 10) @ [digit_char (n mod 10)])"
  by pat_completeness auto
termination
  by (relation "measure id") auto

declare str_of_nat.simps [simp del]

section \<open>The writer and its collaborators\<close>

text \<open>\<^verbatim>\<open>Version = namedtuple("Version", ["load", "save"])\<close> of \<^verbatim>\<open>kedro.io.core\<close>.\<close>

datatype version = Version (version_load: "string option") (version_save: "string option")

text \<open>
  The attributes \<^verbatim>\<open>__init__\<close> sets on the instance. The filesystem object is kept as the
  arguments \<^verbatim>\<open>fsspec.filesystem\<close> was called with.
\<close>

record writer =
  fs_args :: dict
  fs_open_args_save :: dict
  layer :: "string option"
  protocol :: string
  fs_kwargs :: dict
  filepath :: path
  version :: "version option"
  save_args :: dict

text \<open>
  The calls the writer makes on the filesystem object, in the order it makes them.
\<close>

datatype fs_call =
    Exists path
  | Open path dict
  | Write path bytes
  | Close path
  | InvalidateCache path

text \<open>
  The mutable world a writer works on: the files of the backing store, the paths the
  filesystem holds a cached listing for, the number of write handles that are open, the
  calls made so far, the generated save version the versioning base class caches for the
  instance, and the clock the version timestamps are read from.
\<close>

record state =
  files :: "(path \<times> bytes) list"
  dircache :: "path list"
  open_handles :: nat
  calls :: "fs_call list"
  version_cache :: "string option"
  clock :: nat

text \<open>
  What the writer is composed with and has no source for here: the plotting library's
  encoder, the helpers of \<^verbatim>\<open>kedro.io.core\<close>, the filesystem's separator and the
  failures the filesystem constructor, \<^verbatim>\<open>open\<close> and \<^verbatim>\<open>write\<close> may raise. They are
  parameters of every definition below.
\<close>

record 'p env =
  savefig :: "'p \<Rightarrow> dict \<Rightarrow> string + bytes"
  get_protocol_and_path :: "string \<Rightarrow> version option \<Rightarrow> string + (string \<times> string)"
  pure_posix_path :: "string \<Rightarrow> path"
  get_filepath_str :: "path \<Rightarrow> string \<Rightarrow> string"
  get_versioned_path :: "path \<Rightarrow> string \<Rightarrow> path"
  generate_timestamp :: "nat \<Rightarrow> string"
  str_of_writer :: "writer \<Rightarrow> string"
  pathsep :: string
  filesystem_fails :: "string \<Rightarrow> dict \<Rightarrow> string option"
  open_fails :: "path \<Rightarrow> dict \<Rightarrow> string option"
  write_fails :: "path \<Rightarrow> bytes \<Rightarrow> string option"

section \<open>The filesystem\<close>

text \<open>
  Modelled from the spec: the filesystem abstraction (\<^verbatim>\<open>fsspec\<close>) is an external
  collaborator with the capabilities \<^verbatim>\<open>exists(path)\<close>, \<^verbatim>\<open>open_for_write(path, options)\<close>,
  \<^verbatim>\<open>invalidate_cache(path)\<close> and a path separator. A path is present when a file is stored
  at it or below it; a handle opened for writing replaces the content of its file with what
  is written; invalidating a path drops the cached listing of that path and of no other.
\<close>

definition present :: "string \<Rightarrow> (path \<times> bytes) list \<Rightarrow> path \<Rightarrow> bool" where
  "present sep fl p = list_ex (\<lambda>(q, _). q = p \<or> prefix (p @ sep) q) fl"

definition fs_exists :: "'p env \<Rightarrow> state \<Rightarrow> path \<Rightarrow> bool \<times> state" where
  "fs_exists E s p = (present (pathsep E) (files s) p, s\<lparr>calls := calls s @ [Exists p]\<rparr>)"

fun store_file :: "(path \<times> bytes) list \<Rightarrow> path \<Rightarrow> bytes \<Rightarrow> (path \<times> bytes) list" where
  "store_file [] p b = [(p, b)]"
| "store_file ((q, c) # fl) p b =
     (if q = p then (p, b) # fl else (q, c) # store_file fl p b)"

definition fs_open :: "'p env \<Rightarrow> state \<Rightarrow> path \<Rightarrow> dict \<Rightarrow> error + state" where
  "fs_open E s p args =
     (case open_fails E p args of
        Some msg \<Rightarrow> Inl (FilesystemError msg)
      | None \<Rightarrow>
          Inr (s\<lparr>open_handles := Suc (open_handles s), calls := calls s @ [Open p args]\<rparr>))"

definition fs_write :: "'p env \<Rightarrow> state \<Rightarrow> path \<Rightarrow> bytes \<Rightarrow> error option \<times> state" where
  "fs_write E s p b =
     (case write_fails E p b of
        Some msg \<Rightarrow> (Some (FilesystemError msg), s)
      | None \<Rightarrow> (None, s\<lparr>files := store_file (files s) p b, calls := calls s @ [Write p b]\<rparr>))"

definition fs_close :: "state \<Rightarrow> path \<Rightarrow> state" where
  "fs_close s p = s\<lparr>open_handles := open_handles s - 1, calls := calls s @ [Close p]\<rparr>"

definition fs_invalidate_cache :: "state \<Rightarrow> path \<Rightarrow> state" where
  "fs_invalidate_cache s p =
     s\<lparr>dircache := removeAll p (dircache s), calls := calls s @ [InvalidateCache p]\<rparr>"

section \<open>Construction\<close>

definition DEFAULT_SAVE_ARGS :: "(string \<times> 'v) list" where
  "DEFAULT_SAVE_ARGS = []"

definition class_name :: string where
  "class_name = ''MatplotlibVersionedWriter''"

text \<open>
  \<^verbatim>\<open>f(**a, **b)\<close>: the keyword arguments of both dictionaries; Python raises
  \<^verbatim>\<open>TypeError\<close> when a keyword comes twice.
\<close>

definition kwargs :: "(string \<times> 'v) list \<Rightarrow> (string \<times> 'v) list \<Rightarrow> error + (string \<times> 'v) list" where
  "kwargs a b =
     (case filter (\<lambda>k. k \<in> set (map fst a)) (map fst b) of
        [] \<Rightarrow> Inr (a @ b)
      | k # _ \<Rightarrow> Inl (TypeError (''got multiple values for keyword argument '' @ k)))"

text \<open>
  \<^verbatim>\<open>__init__\<close>. Dictionaries are values here, so \<^verbatim>\<open>copy.deepcopy\<close> is the identity;
  the copies and their independence of the caller's objects are the subject of the heap
  model further down. \<^verbatim>\<open>setdefault\<close> exists on dictionaries only.
\<close>

definition init ::
  "'p env \<Rightarrow> string \<Rightarrow> dict option \<Rightarrow> dict option \<Rightarrow> dict option \<Rightarrow> string option \<Rightarrow>
     version option \<Rightarrow> error + writer" where
  "init E filepath_arg fs_args_arg credentials save_args_arg layer_arg version_arg =
     (let credentials' = or_empty credentials;
          fs_args' = or_empty fs_args_arg;
          (open_args, fs_args'') = dict_pop fs_args' ''open_args_save'' (PyDict [])
      in case open_args of
           PyDict d \<Rightarrow>
             (let open_args_save = dict_setdefault d ''mode'' (PyStr ''wb'')
              in case get_protocol_and_path E filepath_arg version_arg of
                   Inl msg \<Rightarrow> Inl (DataSetError msg)
                 | Inr (proto, p) \<Rightarrow>
                     (case kwargs credentials' fs_args'' of
                        Inl e \<Rightarrow> Inl e
                      | Inr kw \<Rightarrow>
                          (case filesystem_fails E proto kw of
                             Some msg \<Rightarrow> Inl (FilesystemError msg)
                           | None \<Rightarrow>
                               Inr \<lparr>fs_args = fs_args'',
                                    fs_open_args_save = open_args_save,
                                    layer = layer_arg,
                                    protocol = proto,
                                    fs_kwargs = kw,
                                    filepath = pure_posix_path E p,
                                    version = version_arg,
                                    save_args =
                                      (case save_args_arg of
                                         None \<Rightarrow> DEFAULT_SAVE_ARGS
                                       | Some sa \<Rightarrow> dict_update DEFAULT_SAVE_ARGS sa)\<rparr>)))
         | _ \<Rightarrow> Inl (AttributeError ''setdefault''))"

section \<open>Loading, saving, existence and release\<close>

text \<open>\<^verbatim>\<open>_load\<close> raises whatever the instance and the world are.\<close>

definition load :: "writer \<Rightarrow> state \<Rightarrow> (error + unit) \<times> state" where
  "load w s = (Inl (DataSetError (''Loading not supported for `'' @ class_name @ ''`'')), s)"

text \<open>
  Modelled from the spec: \<^verbatim>\<open>resolve_save_version\<close> of the versioning base class
  (\<^verbatim>\<open>kedro.io.core\<close>) reuses an explicit save version, or lazily generates one and caches
  it for the instance, so that generation happens at most once until the cache is cleared.
\<close>

definition resolve_save_version :: "'p env \<Rightarrow> version \<Rightarrow> state \<Rightarrow> string \<times> state" where
  "resolve_save_version E v s =
     (case version_save v of
        Some sv \<Rightarrow> (sv, s)
      | None \<Rightarrow>
          (case version_cache s of
             Some g \<Rightarrow> (g, s)
           | None \<Rightarrow>
               (generate_timestamp E (clock s),
                s\<lparr>version_cache := Some (generate_timestamp E (clock s)),
                  clock := Suc (clock s)\<rparr>)))"

definition must_not_exist :: "'p env \<Rightarrow> writer \<Rightarrow> path \<Rightarrow> error" where
  "must_not_exist E w versioned_path =
     DataSetError (''Save path `'' @ versioned_path @ ''` for '' @ str_of_writer E w @
       '' must not exist if versioning is enabled.'')"

text \<open>
  \<^verbatim>\<open>_get_save_path\<close>. A \<^verbatim>\<open>Version\<close> tuple is true whatever its fields hold, so
  \<^verbatim>\<open>not self._version\<close> holds exactly when no version was given. Python evaluates the
  left operand of \<^verbatim>\<open>and\<close> first: the filesystem is asked before the flag is read.
\<close>

definition get_save_path :: "'p env \<Rightarrow> writer \<Rightarrow> state \<Rightarrow> (error + path) \<times> state" where
  "get_save_path E w s =
     (case version w of
        None \<Rightarrow> (Inr (filepath w), s)
      | Some v \<Rightarrow>
          (let (save_version, s1) = resolve_save_version E v s;
               versioned_path = get_versioned_path E (filepath w) save_version;
               (found, s2) = fs_exists E s1 versioned_path
           in if found \<and> \<not> truthy (dict_get (save_args w) ''multiFile'')
              then (Inl (must_not_exist E w versioned_path), s2)
              else (Inr versioned_path, s2)))"

text \<open>
  \<^verbatim>\<open>_save_to_fs\<close>: the plot is encoded first, then the file is opened; the
  \<^verbatim>\<open>with\<close> block closes the handle whether \<^verbatim>\<open>write\<close> returns or raises.
\<close>

definition save_to_fs :: "'p env \<Rightarrow> writer \<Rightarrow> path \<Rightarrow> 'p \<Rightarrow> state \<Rightarrow> error option \<times> state" where
  "save_to_fs E w full_key_path plot s =
     (case savefig E plot (save_args w) of
        Inl msg \<Rightarrow> (Some (EncoderError msg), s)
      | Inr bytes_buffer \<Rightarrow>
          (case fs_open E s full_key_path (fs_open_args_save w) of
             Inl e \<Rightarrow> (Some e, s)
           | Inr s1 \<Rightarrow>
               (let (r, s2) = fs_write E s1 full_key_path bytes_buffer
                in (r, fs_close s2 full_key_path))))"

text \<open>\<^verbatim>\<open>sep.join([a, b])\<close>.\<close>

definition join2 :: "string \<Rightarrow> string \<Rightarrow> string \<Rightarrow> string" where
  "join2 sep a b = a @ sep @ b"

text \<open>The three shapes of the data \<^verbatim>\<open>_save\<close> tells apart with \<^verbatim>\<open>isinstance\<close>.\<close>

datatype 'p payload =
    Plots "'p list"
  | NamedPlots "(string \<times> 'p) list"
  | Plot 'p

text \<open>The loop over \<^verbatim>\<open>enumerate(data)\<close>; an exception leaves the loop.\<close>

fun save_list :: "'p env \<Rightarrow> writer \<Rightarrow> nat \<Rightarrow> 'p list \<Rightarrow> state \<Rightarrow> error option \<times> state" where
  "save_list E w index [] s = (None, s)"
| "save_list E w index (plot # rest) s =
     (case get_save_path E w s of
        (Inl e, s1) \<Rightarrow> (Some e, s1)
      | (Inr save_path, s1) \<Rightarrow>
          (let full_key_path =
                 join2 (pathsep E) (get_filepath_str E save_path (protocol w))
                   (str_of_nat index @ ''.png'')
           in case save_to_fs E w full_key_path plot s1 of
                (Some e, s2) \<Rightarrow> (Some e, s2)
              | (None, s2) \<Rightarrow> save_list E w (Suc index) rest s2))"

text \<open>The loop over \<^verbatim>\<open>data.items()\<close>.\<close>

fun save_dict :: "'p env \<Rightarrow> writer \<Rightarrow> (string \<times> 'p) list \<Rightarrow> state \<Rightarrow> error option \<times> state" where
  "save_dict E w [] s = (None, s)"
| "save_dict E w ((plot_name, plot) # rest) s =
     (case get_save_path E w s of
        (Inl e, s1) \<Rightarrow> (Some e, s1)
      | (Inr save_path, s1) \<Rightarrow>
          (let full_key_path =
                 join2 (pathsep E) (get_filepath_str E save_path (protocol w)) plot_name
           in case save_to_fs E w full_key_path plot s1 of
                (Some e, s2) \<Rightarrow> (Some e, s2)
              | (None, s2) \<Rightarrow> save_dict E w rest s2))"

definition invalidate_cache :: "'p env \<Rightarrow> writer \<Rightarrow> state \<Rightarrow> state" where
  "invalidate_cache E w s = fs_invalidate_cache s (get_filepath_str E (filepath w) (protocol w))"

text \<open>\<^verbatim>\<open>_save\<close>: the cache is invalidated only when no branch raised.\<close>

definition save :: "'p env \<Rightarrow> writer \<Rightarrow> 'p payload \<Rightarrow> state \<Rightarrow> error option \<times> state" where
  "save E w data s =
     (case (case data of
              Plots ps \<Rightarrow> save_list E w 0 ps s
            | NamedPlots d \<Rightarrow> save_dict E w d s
            | Plot plot \<Rightarrow>
                (case get_save_path E w s of
                   (Inl e, s1) \<Rightarrow> (Some e, s1)
                 | (Inr save_path, s1) \<Rightarrow>
                     save_to_fs E w (get_filepath_str E save_path (protocol w)) plot s1)) of
        (Some e, s') \<Rightarrow> (Some e, s')
      | (None, s') \<Rightarrow> (None, invalidate_cache E w s'))"

text \<open>\<^verbatim>\<open>_exists\<close> asks the filesystem for the declared path, versioned or not.\<close>

definition exists :: "'p env \<Rightarrow> writer \<Rightarrow> state \<Rightarrow> bool \<times> state" where
  "exists E w s = fs_exists E s (get_filepath_str E (filepath w) (protocol w))"

text \<open>
  Modelled from the spec: \<^verbatim>\<open>_release\<close> of the versioning base class clears the cached
  generated version, so that the next save resolves a fresh one.
\<close>

definition base_release :: "state \<Rightarrow> state" where
  "base_release s = s\<lparr>version_cache := None\<rparr>"

definition release :: "'p env \<Rightarrow> writer \<Rightarrow> state \<Rightarrow> state" where
  "release E w s = invalidate_cache E w (base_release s)"

section \<open>Reading the call log and the store\<close>

text \<open>The arguments of the calls of one kind, in the order they were made.\<close>

definition written :: "fs_call list \<Rightarrow> (path \<times> bytes) list" where
  "written cs = [(p, b). Write p b \<leftarrow> cs]"

definition checked :: "fs_call list \<Rightarrow> path list" where
  "checked cs = [p. Exists p \<leftarrow> cs]"

definition opened :: "fs_call list \<Rightarrow> (path \<times> dict) list" where
  "opened cs = [(p, a). Open p a \<leftarrow> cs]"

definition closed :: "fs_call list \<Rightarrow> path list" where
  "closed cs = [p. Close p \<leftarrow> cs]"

definition invalidated :: "fs_call list \<Rightarrow> path list" where
  "invalidated cs = [p. InvalidateCache p \<leftarrow> cs]"

text \<open>The content of a file of the store, if there is one at the path.\<close>

definition content :: "state \<Rightarrow> path \<Rightarrow> bytes option" where
  "content s p = map_of (files s) p"

section \<open>What the specification says a save does\<close>

text \<open>
  The save version and the save path a state determines for a writer: an explicit save
  version, else the cached generated one, else the one the clock would give now.
\<close>

definition save_version_of :: "'p env \<Rightarrow> version \<Rightarrow> state \<Rightarrow> string" where
  "save_version_of E v s =
     (case version_save v of
        Some sv \<Rightarrow> sv
      | None \<Rightarrow> (case version_cache s of Some g \<Rightarrow> g | None \<Rightarrow> generate_timestamp E (clock s)))"

definition save_path_of :: "'p env \<Rightarrow> writer \<Rightarrow> state \<Rightarrow> path" where
  "save_path_of E w s =
     (case version w of
        None \<Rightarrow> filepath w
      | Some v \<Rightarrow> get_versioned_path E (filepath w) (save_version_of E v s))"

text \<open>The declared path as the filesystem is given it.\<close>

definition declared :: "'p env \<Rightarrow> writer \<Rightarrow> string" where
  "declared E w = get_filepath_str E (filepath w) (protocol w)"

text \<open>
  The on-disk layout in the specification's words: a single plot goes to the base path
  itself, a sequence to \<^verbatim>\<open><base>/<index>.png\<close> for the indices from 0, a mapping
  to \<^verbatim>\<open><base>/<name>\<close> with the name as it is.
\<close>

definition layout :: "string \<Rightarrow> string \<Rightarrow> 'p payload \<Rightarrow> (path \<times> 'p) list" where
  "layout sep base data =
     (case data of
        Plot p \<Rightarrow> [(base, p)]
      | Plots ps \<Rightarrow>
          map (\<lambda>(i, p). (base @ sep @ str_of_nat i @ ''.png'', p)) (enumerate 0 ps)
      | NamedPlots d \<Rightarrow> map (\<lambda>(name, p). (base @ sep @ name, p)) d)"

definition plot_count :: "'p payload \<Rightarrow> nat" where
  "plot_count data =
     (case data of Plot p \<Rightarrow> 1 | Plots ps \<Rightarrow> length ps | NamedPlots d \<Rightarrow> length d)"

text \<open>The bytes the encoder gives for a plot with the writer's merged arguments.\<close>

definition encoding :: "'p env \<Rightarrow> writer \<Rightarrow> 'p \<Rightarrow> bytes" where
  "encoding E w p = (case savefig E p (save_args w) of Inr b \<Rightarrow> b | Inl _ \<Rightarrow> [])"

section \<open>An environment to run the writer in\<close>

text \<open>
  A concrete set of collaborators, after the test suite: plots are named by strings and
  encode to their name behind a tag, paths have the form \<^verbatim>\<open>s3://<bucket>/<key>\<close>, the
  versioned path is \<^verbatim>\<open><path>/<version>/<name>\<close>, and no call fails except the writing of
  the plot named \<^verbatim>\<open>bad\<close>.
\<close>

definition basename :: "path \<Rightarrow> string" where
  "basename p = rev (takeWhile (\<lambda>c. c \<noteq> CHR ''/'') (rev p))"

definition s3_env :: "string env" where
  "s3_env =
     \<lparr>savefig = (\<lambda>plot args. if plot = ''broken'' then Inl ''cannot draw'' else Inr (''PNG:'' @ plot)),
      get_protocol_and_path = (\<lambda>f v. Inr (''s3'', drop 5 f)),
      pure_posix_path = (\<lambda>p. p),
      get_filepath_str = (\<lambda>p proto. p),
      get_versioned_path = (\<lambda>p v. p @ ''/'' @ v @ ''/'' @ basename p),
      generate_timestamp = (\<lambda>n. ''2020-05-01T00.00.00.00'' @ str_of_nat n @ ''Z''),
      str_of_writer = (\<lambda>w. class_name @ ''(filepath='' @ filepath w @ '')''),
      pathsep = ''/'',
      filesystem_fails = (\<lambda>proto kw. None),
      open_fails = (\<lambda>p a. None),
      write_fails = (\<lambda>p b. if b = ''PNG:bad'' then Some ''disk full'' else None)\<rparr>"

definition empty_state :: state where
  "empty_state =
     \<lparr>files = [], dircache = [], open_handles = 0, calls = [], version_cache = None, clock = 0\<rparr>"

definition plain_writer :: writer where
  "plain_writer =
     \<lparr>fs_args = [], fs_open_args_save = [(''mode'', PyStr ''wb'')], layer = None,
      protocol = ''s3'', fs_kwargs = [], filepath = ''test_bucket/matplotlib'',
      version = None, save_args = []\<rparr>"

definition versioned_writer :: writer where
  "versioned_writer = plain_writer\<lparr>version := Some (Version None (Some ''v1''))\<rparr>"

section \<open>Auxiliary notions\<close>

text \<open>
  The state a path resolution leaves: the save version is cached when it had to be
  generated, and in versioned mode the filesystem has been asked once.
\<close>

definition resolved :: "'p env \<Rightarrow> writer \<Rightarrow> state \<Rightarrow> state" where
  "resolved E w s =
     (case version w of
        None \<Rightarrow> s
      | Some v \<Rightarrow> (snd (resolve_save_version E v s))\<lparr>calls := calls s @ [Exists (save_path_of E w s)]\<rparr>)"

text \<open>
  The writes a layout asks for: each path with the encoding of its plot.
\<close>

definition expected :: "'p env \<Rightarrow> writer \<Rightarrow> (path \<times> 'p) list \<Rightarrow> (path \<times> bytes) list" where
  "expected E w L = map (\<lambda>(q, p). (q, encoding E w p)) L"

text \<open>
  The store after a sequence of writes.
\<close>

definition replay :: "(path \<times> bytes) list \<Rightarrow> (path \<times> bytes) list \<Rightarrow> (path \<times> bytes) list" where
  "replay ws fl = fold (\<lambda>(q, b) fl. store_file fl q b) ws fl"

text \<open>
  No further save version will be generated: there is no version descriptor, or the save
  version is explicit, or a generated one is cached.
\<close>

definition settled :: "writer \<Rightarrow> state \<Rightarrow> bool" where
  "settled w s =
     (case version w of
        None \<Rightarrow> True
      | Some v \<Rightarrow> version_save v \<noteq> None \<or> version_cache s \<noteq> None)"

text \<open>
  The branches of \<^verbatim>\<open>_save\<close> before the cache is invalidated, with the path resolution
  written out and the list loop read as the loop over its indexed names.
\<close>

definition save_body :: "'p env \<Rightarrow> writer \<Rightarrow> 'p payload \<Rightarrow> state \<Rightarrow> error option \<times> state" where
  "save_body E w data s =
     (case data of
        Plots ps \<Rightarrow> save_dict E w (map (\<lambda>(j, p). (str_of_nat j @ ''.png'', p)) (enumerate 0 ps)) s
      | NamedPlots d \<Rightarrow> save_dict E w d s
      | Plot plot \<Rightarrow>
          (if version w \<noteq> None \<and> present (pathsep E) (files s) (save_path_of E w s) \<and>
              \<not> truthy (dict_get (save_args w) ''multiFile'')
           then (Some (must_not_exist E w (save_path_of E w s)), resolved E w s)
           else save_to_fs E w (get_filepath_str E (save_path_of E w s) (protocol w)) plot
                  (resolved E w s)))"

text \<open>
  A Python dictionary has each key once.
\<close>

definition well_formed :: "'p payload \<Rightarrow> bool" where
  "well_formed data = (case data of NamedPlots d \<Rightarrow> distinct (map fst d) | _ \<Rightarrow> True)"

text \<open>
  The part of a payload that comes before its element of index \<open>n\<close>; a single plot has
  nothing before it.
\<close>

definition firstn :: "nat \<Rightarrow> 'p payload \<Rightarrow> 'p payload" where
  "firstn n data =
     (case data of
        Plots ps \<Rightarrow> Plots (take n ps)
      | NamedPlots d \<Rightarrow> NamedPlots (take n d)
      | Plot p \<Rightarrow> Plots [])"

text \<open>
  A store that already holds the file of version \<^verbatim>\<open>v1\<close> of the test path.
\<close>

definition occupied_state :: state where
  "occupied_state =
     empty_state\<lparr>files := [(''test_bucket/matplotlib/v1/matplotlib'', ''PNG:old'')]\<rparr>"

text \<open>
  The versioned writer with the \<^verbatim>\<open>multiFile\<close> encoder argument set to a truth value.
\<close>

definition multi_file_writer :: "bool \<Rightarrow> writer" where
  "multi_file_writer flag = versioned_writer\<lparr>save_args := [(''multiFile'', PyBool flag)]\<rparr>"

text \<open>
  A versioned writer whose save version is left to be generated, with the
  \<^verbatim>\<open>multiFile\<close> flag set.
\<close>

definition generated_writer :: writer where
  "generated_writer =
     plain_writer\<lparr>version := Some (Version None None),
       save_args := [(''multiFile'', PyBool True)]\<rparr>"

text \<open>
  A path is the directory \<open>d\<close> itself or lies below it.
\<close>

definition below :: "string \<Rightarrow> path \<Rightarrow> path \<Rightarrow> bool" where
  "below sep d q = (q = d \<or> prefix (d @ sep) q)"

text \<open>
  The construction of the test suite with overriding open and encoder arguments.
\<close>

definition test_writer :: "error + writer" where
  "test_writer =
     init s3_env ''s3://test_bucket/matplotlib''
       (Some [(''open_args_save'', PyDict [(''mode'', PyStr ''w''), (''compression'', PyStr ''gzip'')])])
       (Some [(''client_kwargs'', PyDict [(''aws_access_key_id'', PyStr ''testing'')])])
       (Some [(''k1'', PyStr ''v1''), (''index'', PyStr ''value'')]) None None"

section \<open>Construction on the heap\<close>

text \<open>
  The heap model of construction. Python dictionaries are objects with an identity: a heap
  is the list of the dictionaries created so far, an address is a position in it, creating
  a dictionary appends to it, and a value held in a dictionary is a primitive value or the
  address of a dictionary.
\<close>

type_synonym addr = nat

datatype hval = HNone | HBool bool | HInt int | HStr string | HRef addr

type_synonym obj = "(string \<times> hval) list"

type_synonym heap = "obj list"

text \<open>
  The value a heap value denotes, read to a given depth of nesting; a reference cut off at
  depth 0, or one that points outside the heap, reads as the empty dictionary.
\<close>

fun value_of :: "nat \<Rightarrow> heap \<Rightarrow> hval \<Rightarrow> pyval" where
  "value_of n h HNone = PyNone"
| "value_of n h (HBool b) = PyBool b"
| "value_of n h (HInt i) = PyInt i"
| "value_of n h (HStr s) = PyStr s"
| "value_of 0 h (HRef a) = PyDict []"
| "value_of (Suc n) h (HRef a) =
     (if a < length h then PyDict (map (\<lambda>(k, v). (k, value_of n h v)) (h ! a)) else PyDict [])"

text \<open>The items of an object, and of the dictionary at an address, as values.\<close>

definition values_of :: "nat \<Rightarrow> heap \<Rightarrow> obj \<Rightarrow> dict" where
  "values_of n h ob = map (\<lambda>(k, v). (k, value_of n h v)) ob"

definition items_of :: "nat \<Rightarrow> heap \<Rightarrow> addr \<Rightarrow> dict" where
  "items_of n h a = (if a < length h then values_of n h (h ! a) else [])"

text \<open>
  Building a nested value in the heap: every dictionary of the value becomes a new object,
  created empty and filled once its items are built, so an outer dictionary has a lower
  address than the dictionaries in it and no dictionary is used twice.
\<close>

fun alloc :: "heap \<Rightarrow> pyval \<Rightarrow> heap \<times> hval"
  and alloc_items :: "heap \<Rightarrow> (string \<times> pyval) list \<Rightarrow> heap \<times> obj" where
  "alloc h PyNone = (h, HNone)"
| "alloc h (PyBool b) = (h, HBool b)"
| "alloc h (PyInt i) = (h, HInt i)"
| "alloc h (PyStr s) = (h, HStr s)"
| "alloc h (PyDict d) =
     (case alloc_items (h @ [[]]) d of (h', ob) \<Rightarrow> (h'[length h := ob], HRef (length h)))"
| "alloc_items h [] = (h, [])"
| "alloc_items h ((k, v) # d) =
     (case alloc h v of (h1, v') \<Rightarrow>
        (case alloc_items h1 d of (h2, ob) \<Rightarrow> (h2, (k, v') # ob)))"

definition new_dict :: "heap \<Rightarrow> (string \<times> pyval) list \<Rightarrow> heap \<times> addr" where
  "new_dict h d = (case alloc_items (h @ [[]]) d of (h', ob) \<Rightarrow> (h'[length h := ob], length h))"

text \<open>
  \<^verbatim>\<open>copy.deepcopy\<close> of Python's standard library, on values made of dictionaries and
  primitive values. A primitive value is its own copy. For a dictionary the memo is looked
  up first: a dictionary already copied in this call is answered with the copy made then,
  so what was shared in the original is shared in the copy, and a dictionary that contains
  itself is copied to one that contains itself. Otherwise a new empty dictionary is
  created and entered in the memo, and then receives the copies of the items, in order
  (\<^verbatim>\<open>y = {}; memo[id(x)] = y; for key, value in x.items(): y[key] = deepcopy(value, memo)\<close>).
  The memo is a list of pairs of the address of an original and of its copy. The first
  argument bounds the depth of the descent.
\<close>

function copy_val :: "nat \<Rightarrow> heap \<Rightarrow> (addr \<times> addr) list \<Rightarrow> hval \<Rightarrow> heap \<times> (addr \<times> addr) list \<times> hval"
  and copy_items :: "nat \<Rightarrow> heap \<Rightarrow> (addr \<times> addr) list \<Rightarrow> obj \<Rightarrow> heap \<times> (addr \<times> addr) list \<times> obj" where
  "copy_val n h memo HNone = (h, memo, HNone)"
| "copy_val n h memo (HBool b) = (h, memo, HBool b)"
| "copy_val n h memo (HInt i) = (h, memo, HInt i)"
| "copy_val n h memo (HStr s) = (h, memo, HStr s)"
| "copy_val 0 h memo (HRef a) =
     (case map_of memo a of Some a' \<Rightarrow> (h, memo, HRef a') | None \<Rightarrow> (h, memo, HRef a))"
| "copy_val (Suc n) h memo (HRef a) =
     (case map_of memo a of
        Some a' \<Rightarrow> (h, memo, HRef a')
      | None \<Rightarrow>
          if a < length h
          then (case copy_items n (h @ [[]]) ((a, length h) # memo) (h ! a) of
                  (h', memo', ob) \<Rightarrow> (h'[length h := ob], memo', HRef (length h)))
          else (h, memo, HRef a))"
| "copy_items n h memo [] = (h, memo, [])"
| "copy_items n h memo ((k, v) # ob) =
     (case copy_val n h memo v of
        (h1, memo1, v') \<Rightarrow>
          (case copy_items n h1 memo1 ob of
             (h2, memo2, ob') \<Rightarrow> (h2, memo2, (k, v') # ob')))"
  by pat_completeness auto
termination
  by (relation "inv_image (less_than <*lex*> less_than)
        (\<lambda>x. case x of Inl (n, h, memo, v) \<Rightarrow> (n, 0)
                      | Inr (n, h, memo, ob) \<Rightarrow> (n, Suc (length ob)))") auto

text \<open>
  \<^verbatim>\<open>copy.deepcopy(x)\<close> of the dictionary at an address, with an empty memo. A descent
  enters a dictionary only if it is not in the memo yet, so its depth is at most the number
  of dictionaries in the heap.
\<close>

definition deepcopy :: "heap \<Rightarrow> addr \<Rightarrow> heap \<times> addr" where
  "deepcopy h a =
     (case copy_val (length h) h [] (HRef a) of
        (h', _, HRef a') \<Rightarrow> (h', a')
      | (h', _, _) \<Rightarrow> (h', a))"

text \<open>The nesting depth of a value and the number of dictionaries in it.\<close>

fun depth :: "pyval \<Rightarrow> nat" and depth_items :: "(string \<times> pyval) list \<Rightarrow> nat" where
  "depth PyNone = 0"
| "depth (PyBool b) = 0"
| "depth (PyInt i) = 0"
| "depth (PyStr s) = 0"
| "depth (PyDict d) = Suc (depth_items d)"
| "depth_items [] = 0"
| "depth_items ((k, v) # d) = max (depth v) (depth_items d)"

fun nodes :: "pyval \<Rightarrow> nat" and nodes_items :: "(string \<times> pyval) list \<Rightarrow> nat" where
  "nodes PyNone = 0"
| "nodes (PyBool b) = 0"
| "nodes (PyInt i) = 0"
| "nodes (PyStr s) = 0"
| "nodes (PyDict d) = Suc (nodes_items d)"
| "nodes_items [] = 0"
| "nodes_items ((k, v) # d) = nodes v + nodes_items d"

text \<open>A heap has, at the given addresses, the objects of another heap.\<close>

definition agree_on :: "nat set \<Rightarrow> heap \<Rightarrow> heap \<Rightarrow> bool" where
  "agree_on A h h2 = (\<forall>a \<in> A. a < length h2 \<and> h2 ! a = h ! a)"

text \<open>
  An address lies in none of the address ranges that the items of a dictionary other
  than those of key \<open>k0\<close> occupy when the dictionary is built from address \<open>lo\<close> on.
\<close>

fun avoids :: "string \<Rightarrow> addr \<Rightarrow> nat \<Rightarrow> (string \<times> pyval) list \<Rightarrow> bool" where
  "avoids k0 b lo [] = True"
| "avoids k0 b lo ((k, pv) # d) =
     ((k = k0 \<or> b \<notin> {lo ..< lo + nodes pv}) \<and> avoids k0 b (lo + nodes pv) d)"

text \<open>The instance attributes as \<^verbatim>\<open>__init__\<close> leaves them in the heap.\<close>

record hwriter =
  h_fs_args :: addr
  h_fs_open_args_save :: addr
  h_layer :: "string option"
  h_protocol :: string
  h_fs_kwargs :: obj
  h_filepath :: path
  h_version :: "version option"
  h_save_args :: addr

text \<open>\<^verbatim>\<open>copy.deepcopy(x) or {}\<close>: an empty copy is false, so a new dictionary takes its place.\<close>

definition deepcopy_or_empty :: "heap \<Rightarrow> addr option \<Rightarrow> heap \<times> addr" where
  "deepcopy_or_empty h x =
     (case x of
        None \<Rightarrow> (h @ [[]], length h)
      | Some a \<Rightarrow>
          (case deepcopy h a of
             (h', a') \<Rightarrow> if h' ! a' = [] then (h' @ [[]], length h') else (h', a')))"

text \<open>
  \<^verbatim>\<open>__init__\<close> on the heap: the copies are made, each with a memo of its own; \<^verbatim>\<open>pop\<close> and
  \<^verbatim>\<open>setdefault\<close> change the copies in place (the default \<^verbatim>\<open>{}\<close> of \<^verbatim>\<open>pop\<close> is a new
  dictionary), so the default of \<^verbatim>\<open>mode\<close> is entered in the very dictionary that the copy
  of the filesystem arguments held under \<^verbatim>\<open>open_args_save\<close>, wherever else that copy
  holds it; the filesystem is given the items of both copies, read after that; and the
  encoder arguments are a new dictionary updated with the items of the caller's, whose
  nested values are shared, not copied.
\<close>

definition init_heap ::
  "'p env \<Rightarrow> heap \<Rightarrow> string \<Rightarrow> addr option \<Rightarrow> addr option \<Rightarrow> addr option \<Rightarrow> string option \<Rightarrow>
     version option \<Rightarrow> error + (hwriter \<times> heap)" where
  "init_heap E h filepath_arg fs_args_arg credentials save_args_arg layer_arg version_arg =
     (let (h1, credentials') = deepcopy_or_empty h credentials;
          (h2, fs_args') = deepcopy_or_empty h1 fs_args_arg;
          h3 = h2 @ [[]];
          (open_args, rest) = dict_pop (h3 ! fs_args') ''open_args_save'' (HRef (length h2));
          h4 = h3[fs_args' := rest]
      in case open_args of
           HRef b \<Rightarrow>
             (let h5 = h4[b := dict_setdefault (h4 ! b) ''mode'' (HStr ''wb'')]
              in case get_protocol_and_path E filepath_arg version_arg of
                   Inl msg \<Rightarrow> Inl (DataSetError msg)
                 | Inr (proto, p) \<Rightarrow>
                     (case kwargs (h5 ! credentials') (h5 ! fs_args') of
                        Inl e \<Rightarrow> Inl e
                      | Inr kw \<Rightarrow>
                          (case filesystem_fails E proto (values_of (length h5) h5 kw) of
                             Some msg \<Rightarrow> Inl (FilesystemError msg)
                           | None \<Rightarrow>
                               Inr (\<lparr>h_fs_args = fs_args',
                                     h_fs_open_args_save = b,
                                     h_layer = layer_arg,
                                     h_protocol = proto,
                                     h_fs_kwargs = kw,
                                     h_filepath = pure_posix_path E p,
                                     h_version = version_arg,
                                     h_save_args = length h5\<rparr>,
                                    h5 @ [case save_args_arg of
                                            None \<Rightarrow> DEFAULT_SAVE_ARGS
                                          | Some a \<Rightarrow> dict_update DEFAULT_SAVE_ARGS (h5 ! a)]))))
         | _ \<Rightarrow> Inl (AttributeError ''setdefault''))"

text \<open>An optional argument as the caller builds it: \<^verbatim>\<open>None\<close> or a nested dictionary.\<close>

definition new_arg :: "heap \<Rightarrow> dict option \<Rightarrow> heap \<times> addr option" where
  "new_arg h x =
     (case x of
        None \<Rightarrow> (h, None)
      | Some d \<Rightarrow> (case new_dict h d of (h', a) \<Rightarrow> (h', Some a)))"

text \<open>
  A run of the construction: the caller's credentials and filesystem arguments, the heap
  and the instance after construction, and that heap after the caller changed the
  credentials, the nested open arguments and the filesystem arguments it had passed.
\<close>

definition caller_heap :: heap where
  "caller_heap =
     [[(''client_kwargs'', HRef 1)],
      [(''aws_access_key_id'', HStr ''testing'')],
      [(''open_args_save'', HRef 3), (''x'', HRef 4)],
      [(''compression'', HStr ''gzip'')],
      []]"

definition constructed_heap :: heap where
  "constructed_heap =
     caller_heap @
     [[(''client_kwargs'', HRef 6)],
      [(''aws_access_key_id'', HStr ''testing'')],
      [(''x'', HRef 9)],
      [(''compression'', HStr ''gzip''), (''mode'', HStr ''wb'')],
      [],
      [],
      []]"

definition constructed_writer :: hwriter where
  "constructed_writer =
     \<lparr>h_fs_args = 7, h_fs_open_args_save = 8, h_layer = None, h_protocol = ''s3'',
      h_fs_kwargs = [(''client_kwargs'', HRef 6), (''x'', HRef 9)],
      h_filepath = ''test_bucket/matplotlib'', h_version = None, h_save_args = 11\<rparr>"

definition mutated_heap :: heap where
  "mutated_heap =
     constructed_heap[1 := [(''aws_access_key_id'', HStr ''changed'')],
                      3 := [(''mode'', HStr ''rb'')],
                      2 := []]"

text \<open>
  Two callers whose filesystem arguments have the same value,
  \<^verbatim>\<open>{'open_args_save': {'compression': 'gzip'}, 'x': {'compression': 'gzip'}}\<close>. The
  first wrote \<^verbatim>\<open>d = {'compression': 'gzip'}\<close> and passed
  \<^verbatim>\<open>{'open_args_save': d, 'x': d}\<close>, the dictionary at address 1 of its heap; the second
  passed two dictionaries that are equal, at address 2 of its heap.
\<close>

definition shared_heap :: heap where
  "shared_heap =
     [[(''compression'', HStr ''gzip'')],
      [(''open_args_save'', HRef 0), (''x'', HRef 0)]]"

definition separate_heap :: heap where
  "separate_heap =
     [[(''compression'', HStr ''gzip'')],
      [(''compression'', HStr ''gzip'')],
      [(''open_args_save'', HRef 0), (''x'', HRef 1)]]"

text \<open>
  Neither the encoder nor \<^verbatim>\<open>open\<close> nor \<^verbatim>\<open>write\<close> raises for a plot and its path.
\<close>

definition writable :: "'p env \<Rightarrow> writer \<Rightarrow> path \<Rightarrow> 'p \<Rightarrow> bool" where
  "writable E w q p =
     (case savefig E p (save_args w) of
        Inl _ \<Rightarrow> False
      | Inr b \<Rightarrow> open_fails E q (fs_open_args_save w) = None \<and> write_fails E q b = None)"

text \<open>The condition under which \<^verbatim>\<open>_get_save_path\<close> raises.\<close>

definition checked_out :: "'p env \<Rightarrow> writer \<Rightarrow> state \<Rightarrow> bool" where
  "checked_out E w s =
     (version w \<noteq> None \<and> present (pathsep E) (files s) (save_path_of E w s) \<and>
      \<not> truthy (dict_get (save_args w) ''multiFile''))"

section \<open>Steps of a save\<close>

lemma written_simps [simp]:
  "written [] = []"
  "written (c # cs) = (case c of Write p b \<Rightarrow> [(p, b)] | _ \<Rightarrow> []) @ written cs"
  "written (cs @ ds) = written cs @ written ds"
  by (simp_all add: written_def)

lemma checked_simps [simp]:
  "checked [] = []"
  "checked (c # cs) = (case c of Exists p \<Rightarrow> [p] | _ \<Rightarrow> []) @ checked cs"
  "checked (cs @ ds) = checked cs @ checked ds"
  by (simp_all add: checked_def)

lemma opened_simps [simp]:
  "opened [] = []"
  "opened (c # cs) = (case c of Open p a \<Rightarrow> [(p, a)] | _ \<Rightarrow> []) @ opened cs"
  "opened (cs @ ds) = opened cs @ opened ds"
  by (simp_all add: opened_def)

lemma closed_simps [simp]:
  "closed [] = []"
  "closed (c # cs) = (case c of Close p \<Rightarrow> [p] | _ \<Rightarrow> []) @ closed cs"
  "closed (cs @ ds) = closed cs @ closed ds"
  by (simp_all add: closed_def)

lemma invalidated_simps [simp]:
  "invalidated [] = []"
  "invalidated (c # cs) = (case c of InvalidateCache p \<Rightarrow> [p] | _ \<Rightarrow> []) @ invalidated cs"
  "invalidated (cs @ ds) = invalidated cs @ invalidated ds"
  by (simp_all add: invalidated_def)

lemma resolve_save_version_fst:
  "fst (resolve_save_version E v s) = save_version_of E v s"
  by (simp add: resolve_save_version_def save_version_of_def split: option.splits)

lemma get_save_path_eq:
  "get_save_path E w s =
     (if version w \<noteq> None \<and> present (pathsep E) (files s) (save_path_of E w s) \<and>
         \<not> truthy (dict_get (save_args w) ''multiFile'')
      then Inl (must_not_exist E w (save_path_of E w s))
      else Inr (save_path_of E w s),
      resolved E w s)"
  by (simp add: get_save_path_def resolved_def save_path_of_def resolve_save_version_def
      save_version_of_def fs_exists_def Let_def split: option.splits)

lemma resolved_fields [simp]:
  "files (resolved E w s) = files s"
  "dircache (resolved E w s) = dircache s"
  "open_handles (resolved E w s) = open_handles s"
  "written (calls (resolved E w s)) = written (calls s)"
  "opened (calls (resolved E w s)) = opened (calls s)"
  "closed (calls (resolved E w s)) = closed (calls s)"
  "invalidated (calls (resolved E w s)) = invalidated (calls s)"
  by (simp_all add: resolved_def resolve_save_version_def split: option.splits)

lemma resolved_checked:
  "checked (calls (resolved E w s)) =
     checked (calls s) @ (if version w = None then [] else [save_path_of E w s])"
  by (simp add: resolved_def resolve_save_version_def split: option.splits)

lemma resolved_save_path_of [simp]:
  "save_path_of E w (resolved E w s) = save_path_of E w s"
  by (simp add: resolved_def resolve_save_version_def save_path_of_def save_version_of_def
      split: option.splits)

lemma save_to_fs_None:
  assumes "save_to_fs E w q p s = (None, s')"
  shows "savefig E p (save_args w) = Inr (encoding E w p)"
    and "s' = s\<lparr>files := store_file (files s) q (encoding E w p),
               calls := calls s @ [Open q (fs_open_args_save w), Write q (encoding E w p), Close q]\<rparr>"
  using assms
  by (auto simp: save_to_fs_def encoding_def fs_open_def fs_write_def fs_close_def
      split: sum.splits option.splits)

lemma save_to_fs_Some:
  assumes "save_to_fs E w q p s = (Some e, s')"
  shows "files s' = files s" and "written (calls s') = written (calls s)"
    and "dircache s' = dircache s" and "open_handles s' = open_handles s"
    and "version_cache s' = version_cache s" and "clock s' = clock s"
    and "invalidated (calls s') = invalidated (calls s)"
    and "checked (calls s') = checked (calls s)"
    and "\<exists>m. e = EncoderError m \<or> e = FilesystemError m"
  using assms
  by (auto simp: save_to_fs_def encoding_def fs_open_def fs_write_def fs_close_def
      split: sum.splits option.splits)

lemma save_path_of_cong:
  "version_cache s' = version_cache s \<Longrightarrow> clock s' = clock s \<Longrightarrow>
     save_path_of E w s' = save_path_of E w s"
  by (simp add: save_path_of_def save_version_of_def split: option.splits)

lemma save_to_fs_frame:
  assumes "save_to_fs E w q p s = (r, s')"
  shows "dircache s' = dircache s" and "open_handles s' = open_handles s"
    and "version_cache s' = version_cache s" and "clock s' = clock s"
    and "invalidated (calls s') = invalidated (calls s)"
    and "checked (calls s') = checked (calls s)"
    and "\<exists>cs. map fst (opened (calls s')) = map fst (opened (calls s)) @ cs \<and>
              closed (calls s') = closed (calls s) @ cs"
  using assms
  by (auto simp: save_to_fs_def fs_open_def fs_write_def fs_close_def
      split: sum.splits option.splits)

lemma save_list_as_dict:
  "save_list E w i ps s =
     save_dict E w (map (\<lambda>(j, p). (str_of_nat j @ ''.png'', p)) (enumerate i ps)) s"
proof (induction ps arbitrary: i s)
  case Nil
  show ?case by simp
next
  case (Cons p ps)
  show ?case by (simp add: Cons.IH split: prod.splits sum.splits option.splits)
qed

lemma save_dict_Cons_None:
  assumes "save_dict E w ((k, p) # rest) s = (None, s')"
  obtains s2 where
    "get_save_path E w s = (Inr (save_path_of E w s), resolved E w s)"
    "save_to_fs E w (join2 (pathsep E) (get_filepath_str E (save_path_of E w s) (protocol w)) k) p
       (resolved E w s) = (None, s2)"
    "save_dict E w rest s2 = (None, s')"
  using assms
  by (auto simp: get_save_path_eq split: if_splits prod.splits option.splits)

lemma save_dict_None:
  assumes "save_dict E w d s = (None, s')"
  shows "(\<forall>(q, p) \<in> set (layout (pathsep E)
             (get_filepath_str E (save_path_of E w s) (protocol w)) (NamedPlots d)).
            savefig E p (save_args w) = Inr (encoding E w p)) \<and>
         written (calls s') = written (calls s) @
           expected E w (layout (pathsep E) (get_filepath_str E (save_path_of E w s) (protocol w))
             (NamedPlots d)) \<and>
         files s' = replay (expected E w (layout (pathsep E)
             (get_filepath_str E (save_path_of E w s) (protocol w)) (NamedPlots d))) (files s) \<and>
         checked (calls s') = checked (calls s) @
           (if version w = None then [] else replicate (length d) (save_path_of E w s)) \<and>
         save_path_of E w s' = save_path_of E w s"
  using assms
proof (induction d arbitrary: s)
  case Nil
  then show ?case by (simp add: layout_def expected_def replay_def)
next
  case (Cons kp d)
  obtain k p where kp: "kp = (k, p)" by (cases kp)
  from Cons.prems kp obtain s2 where
    step: "save_to_fs E w (join2 (pathsep E) (get_filepath_str E (save_path_of E w s) (protocol w)) k) p
       (resolved E w s) = (None, s2)"
    and rest: "save_dict E w d s2 = (None, s')"
    by (auto elim!: save_dict_Cons_None simp del: save_dict.simps)
  note enc = save_to_fs_None(1)[OF step]
  note s2 = save_to_fs_None(2)[OF step]
  have path: "save_path_of E w s2 = save_path_of E w s"
    using save_path_of_cong[of s2 "resolved E w s" E w] s2 by simp
  from Cons.IH[OF rest] path enc kp s2 show ?case
    by (simp add: layout_def expected_def replay_def join2_def resolved_checked
        replicate_append_same)
qed

lemma save_dict_frame:
  assumes "save_dict E w d s = (r, s')"
  shows "dircache s' = dircache s \<and> open_handles s' = open_handles s \<and>
         invalidated (calls s') = invalidated (calls s) \<and>
         (\<exists>cs. map fst (opened (calls s')) = map fst (opened (calls s)) @ cs \<and>
               closed (calls s') = closed (calls s) @ cs)"
  using assms
proof (induction d arbitrary: s)
  case Nil
  then show ?case by simp
next
  case (Cons kp d)
  obtain k p where kp: "kp = (k, p)" by (cases kp)
  let ?q = "join2 (pathsep E) (get_filepath_str E (save_path_of E w s) (protocol w)) k"
  obtain r2 s2 where step: "save_to_fs E w ?q p (resolved E w s) = (r2, s2)"
    by (cases "save_to_fs E w ?q p (resolved E w s)")
  from save_to_fs_frame(7)[OF step] obtain cs where
    cs: "map fst (opened (calls s2)) = map fst (opened (calls s)) @ cs"
        "closed (calls s2) = closed (calls s) @ cs"
    by auto
  note fr = save_to_fs_frame(1,2,5)[OF step]
  show ?case
  proof (cases "fst (get_save_path E w s)")
    case (Inl e)
    with Cons.prems kp have "s' = resolved E w s"
      by (auto simp: get_save_path_eq split: if_splits)
    then show ?thesis by simp
  next
    case (Inr q)
    show ?thesis
    proof (cases r2)
      case None
      with Cons.prems kp Inr step have "save_dict E w d s2 = (r, s')"
        by (auto simp: get_save_path_eq split: if_splits)
      from Cons.IH[OF this] fr cs show ?thesis by auto
    next
      case (Some e)
      with Cons.prems kp Inr step have "s' = s2"
        by (auto simp: get_save_path_eq split: if_splits)
      with fr cs show ?thesis by auto
    qed
  qed
qed

lemma save_dict_Some:
  assumes "save_dict E w d s = (Some e, s')"
  shows "\<exists>pre x post s1. d = pre @ x # post \<and> save_dict E w pre s = (None, s1) \<and>
           save_dict E w [x] s1 = (Some e, s')"
  using assms
proof (induction d arbitrary: s)
  case Nil
  then show ?case by simp
next
  case (Cons kp d)
  show ?case
  proof (cases "save_dict E w [kp] s")
    case (Pair r1 s1)
    show ?thesis
    proof (cases r1)
      case None
      with Pair Cons.prems have "save_dict E w d s1 = (Some e, s')"
        by (cases kp) (auto simp: Let_def split: prod.splits sum.splits option.splits)
      from Cons.IH[OF this] obtain pre x post s2 where
        d: "d = pre @ x # post" and pre: "save_dict E w pre s1 = (None, s2)"
        and x: "save_dict E w [x] s2 = (Some e, s')"
        by blast
      from Pair None pre have "save_dict E w (kp # pre) s = (None, s2)"
        by (cases kp) (auto simp: Let_def split: prod.splits sum.splits option.splits)
      with d x show ?thesis
        by (metis append_Cons)
    next
      case (Some e1)
      with Pair Cons.prems have "save_dict E w [kp] s = (Some e, s')"
        by (cases kp) (auto simp: Let_def split: prod.splits sum.splits option.splits)
      then have "kp # d = [] @ kp # d \<and> save_dict E w [] s = (None, s) \<and>
          save_dict E w [kp] s = (Some e, s')"
        by simp
      then show ?thesis by blast
    qed
  qed
qed

lemma save_list_Some:
  assumes "save_list E w i ps s = (Some e, s')"
  shows "\<exists>pre x post s1. ps = pre @ x # post \<and> save_list E w i pre s = (None, s1) \<and>
           save_list E w (i + length pre) [x] s1 = (Some e, s')"
  using assms
proof (induction ps arbitrary: i s)
  case Nil
  then show ?case by simp
next
  case (Cons p ps)
  show ?case
  proof (cases "save_list E w i [p] s")
    case (Pair r1 s1)
    show ?thesis
    proof (cases r1)
      case None
      with Pair Cons.prems have "save_list E w (Suc i) ps s1 = (Some e, s')"
        by (auto simp: Let_def split: prod.splits sum.splits option.splits)
      from Cons.IH[OF this] obtain pre x post s2 where
        d: "ps = pre @ x # post" and pre: "save_list E w (Suc i) pre s1 = (None, s2)"
        and x: "save_list E w (Suc i + length pre) [x] s2 = (Some e, s')"
        by blast
      from Pair None pre have "save_list E w i (p # pre) s = (None, s2)"
        by (auto simp: Let_def split: prod.splits sum.splits option.splits)
      with d x have "p # ps = (p # pre) @ x # post \<and> save_list E w i (p # pre) s = (None, s2) \<and>
          save_list E w (i + length (p # pre)) [x] s2 = (Some e, s')"
        by simp
      then show ?thesis by blast
    next
      case (Some e1)
      with Pair Cons.prems have "save_list E w i [p] s = (Some e, s')"
        by (auto simp: Let_def split: prod.splits sum.splits option.splits)
      then have "p # ps = [] @ p # ps \<and> save_list E w i [] s = (None, s) \<and>
          save_list E w (i + length ([]::'a list)) [p] s = (Some e, s')"
        by simp
      then show ?thesis by blast
    qed
  qed
qed

lemma save_dict_single_Some:
  assumes "save_dict E w [(k, p)] s = (Some e, s')"
  shows "files s' = files s \<and> written (calls s') = written (calls s) \<and>
         (e = must_not_exist E w (save_path_of E w s) \<or>
          (\<exists>m. e = EncoderError m \<or> e = FilesystemError m))"
proof (cases "fst (get_save_path E w s)")
  case (Inl e')
  with assms show ?thesis
    by (auto simp: get_save_path_eq split: if_splits)
next
  case (Inr q)
  let ?q = "join2 (pathsep E) (get_filepath_str E (save_path_of E w s) (protocol w)) k"
  from Inr assms have "save_to_fs E w ?q p (resolved E w s) = (Some e, s')"
    by (auto simp: get_save_path_eq split: if_splits prod.splits option.splits)
  from save_to_fs_Some(1,2,9)[OF this] show ?thesis by simp
qed

lemma settled_resolved [simp]: "settled w (resolved E w s)"
  by (auto simp: settled_def resolved_def resolve_save_version_def split: option.splits)

lemma resolved_settled:
  "settled w s \<Longrightarrow> clock (resolved E w s) = clock s \<and>
     version_cache (resolved E w s) = version_cache s"
  by (auto simp: settled_def resolved_def resolve_save_version_def split: option.splits)

lemma resolved_clock:
  "clock s \<le> clock (resolved E w s) \<and> clock (resolved E w s) \<le> Suc (clock s)"
  by (auto simp: resolved_def resolve_save_version_def split: option.splits)

lemma settled_cong:
  "version_cache s' = version_cache s \<Longrightarrow> settled w s' = settled w s"
  by (simp add: settled_def split: option.splits)

lemma save_dict_settled:
  assumes "save_dict E w d s = (r, s')" and "settled w s"
  shows "clock s' = clock s \<and> version_cache s' = version_cache s"
  using assms
proof (induction d arbitrary: s)
  case Nil
  then show ?case by simp
next
  case (Cons kp d)
  obtain k p where kp: "kp = (k, p)" by (cases kp)
  let ?q = "join2 (pathsep E) (get_filepath_str E (save_path_of E w s) (protocol w)) k"
  obtain r2 s2 where step: "save_to_fs E w ?q p (resolved E w s) = (r2, s2)"
    by (cases "save_to_fs E w ?q p (resolved E w s)")
  note fr = save_to_fs_frame(3,4)[OF step]
  note rs = resolved_settled[OF Cons.prems(2), of E]
  from fr rs Cons.prems(2) have set2: "settled w s2"
    using settled_cong[of s2 s w] by simp
  show ?case
  proof (cases "fst (get_save_path E w s)")
    case (Inl e)
    with Cons.prems kp have "s' = resolved E w s"
      by (auto simp: get_save_path_eq split: if_splits)
    with rs show ?thesis by simp
  next
    case (Inr q)
    show ?thesis
    proof (cases r2)
      case None
      with Cons.prems kp Inr step have "save_dict E w d s2 = (r, s')"
        by (auto simp: get_save_path_eq split: if_splits)
      from Cons.IH[OF this set2] fr rs show ?thesis by simp
    next
      case (Some e)
      with Cons.prems kp Inr step have "s' = s2"
        by (auto simp: get_save_path_eq split: if_splits)
      with fr rs show ?thesis by simp
    qed
  qed
qed

lemma save_dict_clock:
  assumes "save_dict E w d s = (r, s')"
  shows "clock s \<le> clock s' \<and> clock s' \<le> Suc (clock s)"
proof (cases d)
  case Nil
  with assms show ?thesis by simp
next
  case (Cons kp d')
  obtain k p where kp: "kp = (k, p)" by (cases kp)
  let ?q = "join2 (pathsep E) (get_filepath_str E (save_path_of E w s) (protocol w)) k"
  obtain r2 s2 where step: "save_to_fs E w ?q p (resolved E w s) = (r2, s2)"
    by (cases "save_to_fs E w ?q p (resolved E w s)")
  note fr = save_to_fs_frame(3,4)[OF step]
  have set2: "settled w s2"
    using fr settled_cong[of s2 "resolved E w s" w] by simp
  note rc = resolved_clock[of s E w]
  show ?thesis
  proof (cases "fst (get_save_path E w s)")
    case (Inl e)
    with assms Cons kp have "s' = resolved E w s"
      by (auto simp: get_save_path_eq split: if_splits)
    with rc show ?thesis by simp
  next
    case (Inr q)
    show ?thesis
    proof (cases r2)
      case None
      with assms Cons kp Inr step have "save_dict E w d' s2 = (r, s')"
        by (auto simp: get_save_path_eq split: if_splits)
      from save_dict_settled[OF this set2] fr rc show ?thesis by simp
    next
      case (Some e)
      with assms Cons kp Inr step have "s' = s2"
        by (auto simp: get_save_path_eq split: if_splits)
      with fr rc show ?thesis by simp
    qed
  qed
qed

lemma digit_char_inj: "a < 10 \<Longrightarrow> b < 10 \<Longrightarrow> digit_char a = digit_char b \<Longrightarrow> a = b"
proof -
  assume a: "a < 10" and b: "b < 10" and eq: "digit_char a = digit_char b"
  have d: "distinct ''0123456789''" by simp
  have "length ''0123456789'' = 10" by simp
  with a b eq d show "a = b"
    unfolding digit_char_def by (metis nth_eq_iff_index_eq)
qed

lemma str_of_nat_not_Nil [simp]: "str_of_nat n \<noteq> []" "[] \<noteq> str_of_nat n"
  by (subst str_of_nat.simps, simp)+

lemma str_of_nat_inj: "str_of_nat a = str_of_nat b \<Longrightarrow> a = b"
proof (induction a arbitrary: b rule: str_of_nat.induct)
  case (1 n)
  show ?case
  proof (cases "n < 10")
    case True
    with "1.prems" have eq: "[digit_char n] = str_of_nat b"
      by (subst (asm) str_of_nat.simps) simp
    have "b < 10"
    proof (rule ccontr)
      assume "\<not> b < 10"
      then have "str_of_nat b = str_of_nat (b div 10) @ [digit_char (b mod 10)]"
        by (subst str_of_nat.simps) simp
      with eq show False by simp
    qed
    with eq have "digit_char n = digit_char b"
      by (subst (asm) str_of_nat.simps) simp
    with True \<open>b < 10\<close> show ?thesis by (rule digit_char_inj)
  next
    case False
    then have n: "str_of_nat n = str_of_nat (n div 10) @ [digit_char (n mod 10)]"
      by (subst str_of_nat.simps) simp
    have "\<not> b < 10"
    proof
      assume "b < 10"
      then have "str_of_nat b = [digit_char b]"
        by (subst str_of_nat.simps) simp
      with n "1.prems" show False by simp
    qed
    then have b: "str_of_nat b = str_of_nat (b div 10) @ [digit_char (b mod 10)]"
      by (subst str_of_nat.simps) simp
    from n b "1.prems" have hd: "str_of_nat (n div 10) = str_of_nat (b div 10)"
      and tl: "digit_char (n mod 10) = digit_char (b mod 10)"
      by simp_all
    from "1.IH"[OF False hd] have "n div 10 = b div 10" .
    moreover from tl have "n mod 10 = b mod 10"
      by (intro digit_char_inj) simp_all
    ultimately show ?thesis
      by (metis div_mult_mod_eq)
  qed
qed

lemma map_of_store_file: "map_of (store_file fl p b) = (map_of fl)(p \<mapsto> b)"
  by (induction fl) auto

lemma map_fst_store_file:
  "map fst (store_file fl p b) = (if p \<in> fst ` set fl then map fst fl else map fst fl @ [p])"
  by (induction fl) force+

lemma keys_store_file: "fst ` set (store_file fl p b) = insert p (fst ` set fl)"
proof -
  have "set (map fst (store_file fl p b)) = insert p (set (map fst fl))"
    unfolding map_fst_store_file by auto
  then show ?thesis by simp
qed

lemma replay_Nil [simp]: "replay [] fl = fl"
  by (simp add: replay_def)

lemma replay_Cons [simp]: "replay ((q, b) # ws) fl = replay ws (store_file fl q b)"
  by (simp add: replay_def)

lemma map_of_replay:
  "map_of (replay ws fl) q = (case map_of (rev ws) q of Some b \<Rightarrow> Some b | None \<Rightarrow> map_of fl q)"
proof (induction ws arbitrary: fl)
  case Nil
  show ?case by simp
next
  case (Cons qb ws)
  obtain q' b where qb: "qb = (q', b)" by (cases qb)
  show ?case
    by (simp add: qb Cons.IH map_of_store_file map_add_def split: option.splits)
qed

lemma keys_replay: "fst ` set (replay ws fl) = fst ` set fl \<union> fst ` set ws"
proof (induction ws arbitrary: fl)
  case Nil
  show ?case by simp
next
  case (Cons qb ws)
  obtain q' b where qb: "qb = (q', b)" by (cases qb)
  show ?case by (simp add: qb Cons.IH keys_store_file)
qed

lemma present_keys:
  "present sep fl p = (\<exists>q \<in> fst ` set fl. q = p \<or> prefix (p @ sep) q)"
  by (force simp: present_def list_ex_iff)

lemma layout_Plots:
  "layout sep base (Plots ps) =
     layout sep base (NamedPlots (map (\<lambda>(j, p). (str_of_nat j @ ''.png'', p)) (enumerate 0 ps)))"
  by (simp add: layout_def split_def comp_def)

lemma invalidate_cache_fields [simp]:
  "files (invalidate_cache E w s) = files s"
  "dircache (invalidate_cache E w s) = removeAll (declared E w) (dircache s)"
  "open_handles (invalidate_cache E w s) = open_handles s"
  "version_cache (invalidate_cache E w s) = version_cache s"
  "clock (invalidate_cache E w s) = clock s"
  "calls (invalidate_cache E w s) = calls s @ [InvalidateCache (declared E w)]"
  by (simp_all add: invalidate_cache_def fs_invalidate_cache_def declared_def)

lemma save_eq:
  "save E w data s =
     (case save_body E w data s of
        (Some e, s') \<Rightarrow> (Some e, s')
      | (None, s') \<Rightarrow> (None, invalidate_cache E w s'))"
  by (auto simp: save_def save_body_def save_list_as_dict get_save_path_eq split: payload.splits)

lemma save_None_iff:
  "save E w data s = (None, s') \<longleftrightarrow>
     (\<exists>s0. save_body E w data s = (None, s0) \<and> s' = invalidate_cache E w s0)"
  by (auto simp: save_eq split: prod.splits option.splits)

lemma save_Some_iff:
  "save E w data s = (Some e, s') \<longleftrightarrow> save_body E w data s = (Some e, s')"
  by (auto simp: save_eq split: prod.splits option.splits)

lemma save_body_None:
  assumes "save_body E w data s = (None, s')"
  shows "(\<forall>(q, p) \<in> set (layout (pathsep E) (get_filepath_str E (save_path_of E w s) (protocol w)) data).
            savefig E p (save_args w) = Inr (encoding E w p)) \<and>
         written (calls s') = written (calls s) @
           expected E w (layout (pathsep E) (get_filepath_str E (save_path_of E w s) (protocol w)) data) \<and>
         files s' = replay (expected E w (layout (pathsep E)
             (get_filepath_str E (save_path_of E w s) (protocol w)) data)) (files s) \<and>
         checked (calls s') = checked (calls s) @
           (if version w = None then [] else replicate (plot_count data) (save_path_of E w s)) \<and>
         save_path_of E w s' = save_path_of E w s"
proof (cases data)
  case (Plots ps)
  with assms have "save_dict E w (map (\<lambda>(j, p). (str_of_nat j @ ''.png'', p)) (enumerate 0 ps)) s = (None, s')"
    by (simp add: save_body_def)
  from save_dict_None[OF this] show ?thesis
    unfolding Plots layout_Plots plot_count_def by simp
next
  case (NamedPlots d)
  with assms have "save_dict E w d s = (None, s')"
    by (simp add: save_body_def)
  from save_dict_None[OF this] show ?thesis
    unfolding NamedPlots plot_count_def by simp
next
  case (Plot p)
  with assms have step: "save_to_fs E w (get_filepath_str E (save_path_of E w s) (protocol w)) p
      (resolved E w s) = (None, s')"
    by (simp add: save_body_def split: if_splits)
  note enc = save_to_fs_None(1)[OF step]
  note s2 = save_to_fs_None(2)[OF step]
  have path: "save_path_of E w s' = save_path_of E w s"
    using save_path_of_cong[of s' "resolved E w s" E w] s2 by simp
  from path enc s2 Plot show ?thesis
    by (simp add: layout_def expected_def replay_def resolved_checked plot_count_def)
qed

lemma map_fst_expected [simp]: "map fst (expected E w L) = map fst L"
  by (simp add: expected_def split_def comp_def)

lemma length_layout [simp]: "length (layout sep base data) = plot_count data"
  by (simp add: layout_def plot_count_def split: payload.splits)

lemma map_comp_fst: "map (\<lambda>x. f (fst x)) xs = map f (map fst xs)"
  by (simp add: comp_def)

lemma layout_distinct:
  assumes "well_formed data"
  shows "distinct (map fst (layout sep base data))"
proof (cases data)
  case (Plots ps)
  have "map fst (layout sep base data) =
      map (\<lambda>i. base @ sep @ str_of_nat i @ ''.png'') (map fst (enumerate 0 ps))"
    unfolding map_comp_fst[symmetric] by (simp add: Plots layout_def split_def comp_def)
  moreover have "inj (\<lambda>i. base @ sep @ str_of_nat i @ ''.png'')"
    by (rule injI) (simp add: str_of_nat_inj)
  ultimately show ?thesis
    by (simp add: distinct_map inj_on_def)
next
  case (NamedPlots d)
  have "map fst (layout sep base data) = map (\<lambda>k. base @ sep @ k) (map fst d)"
    by (simp add: NamedPlots layout_def split_def comp_def)
  with assms NamedPlots show ?thesis
    by (simp add: well_formed_def distinct_map inj_on_def)
next
  case (Plot p)
  then show ?thesis by (simp add: layout_def)
qed

lemma content_written:
  assumes "files s' = replay (expected E w L) (files s)"
    and "distinct (map fst L)" and "(q, p) \<in> set L"
  shows "content s' q = Some (encoding E w p)"
proof -
  have "(q, encoding E w p) \<in> set (rev (expected E w L))"
    using assms(3) by (force simp: expected_def)
  moreover have "distinct (map fst (rev (expected E w L)))"
    using assms(2) by (simp add: rev_map[symmetric])
  ultimately have "map_of (rev (expected E w L)) q = Some (encoding E w p)"
    by (rule map_of_is_SomeI[rotated])
  then show ?thesis
    by (simp add: content_def assms(1) map_of_replay)
qed

lemma content_other:
  assumes "files s' = replay (expected E w L) (files s)" and "q \<notin> fst ` set L"
  shows "content s' q = content s q"
proof -
  have "q \<notin> fst ` set (rev (expected E w L))"
    using assms(2) by (force simp: expected_def)
  then have "map_of (rev (expected E w L)) q = None"
    by (metis map_of_eq_None_iff)
  then show ?thesis
    by (simp add: content_def assms(1) map_of_replay)
qed

lemmas run_defs =
  save_def get_save_path_def resolve_save_version_def save_to_fs_def fs_exists_def fs_open_def
  fs_write_def fs_close_def fs_invalidate_cache_def invalidate_cache_def join2_def present_def
  must_not_exist_def dict_get_def Let_def

lemmas s3_defs =
  s3_env_def plain_writer_def versioned_writer_def empty_state_def basename_def class_name_def

lemma str_of_nat_digits [simp]:
  "str_of_nat 0 = ''0''" "str_of_nat 1 = ''1''" "str_of_nat (Suc 0) = ''1''" "str_of_nat 2 = ''2''"
  by (simp_all add: str_of_nat.simps digit_char_def)

lemma take_enumerate: "take n (enumerate i xs) = enumerate i (take n xs)"
proof (induction xs arbitrary: n i)
  case Nil
  show ?case by simp
next
  case (Cons x xs)
  show ?case by (cases n) (simp_all add: Cons.IH)
qed

lemma layout_firstn:
  assumes "n < plot_count data"
  shows "layout sep base (firstn n data) = take n (layout sep base data)"
  using assms
  by (cases data) (simp_all add: firstn_def layout_def plot_count_def take_map take_enumerate)

lemma save_list_single_as_dict:
  "save_list E w i [p] s = save_dict E w [(str_of_nat i @ ''.png'', p)] s"
  by (simp add: save_list_as_dict)

lemma save_body_frame:
  assumes "save_body E w data s = (r, s')"
  shows "dircache s' = dircache s \<and> open_handles s' = open_handles s \<and>
         invalidated (calls s') = invalidated (calls s) \<and>
         (\<exists>cs. map fst (opened (calls s')) = map fst (opened (calls s)) @ cs \<and>
               closed (calls s') = closed (calls s) @ cs) \<and>
         clock s \<le> clock s' \<and> clock s' \<le> Suc (clock s)"
proof (cases data)
  case (Plots ps)
  with assms have "save_dict E w (map (\<lambda>(j, p). (str_of_nat j @ ''.png'', p)) (enumerate 0 ps)) s = (r, s')"
    by (simp add: save_body_def)
  from save_dict_frame[OF this] save_dict_clock[OF this] show ?thesis by simp
next
  case (NamedPlots d)
  with assms have "save_dict E w d s = (r, s')"
    by (simp add: save_body_def)
  from save_dict_frame[OF this] save_dict_clock[OF this] show ?thesis by simp
next
  case (Plot p)
  note rc = resolved_clock[of s E w]
  show ?thesis
  proof (cases "version w \<noteq> None \<and> present (pathsep E) (files s) (save_path_of E w s) \<and>
              \<not> truthy (dict_get (save_args w) ''multiFile'')")
    case True
    with assms Plot have "s' = resolved E w s"
      by (simp add: save_body_def)
    with rc show ?thesis by simp
  next
    case False
    with assms Plot have step: "save_to_fs E w (get_filepath_str E (save_path_of E w s) (protocol w)) p
        (resolved E w s) = (r, s')"
      by (auto simp: save_body_def)
    from save_to_fs_frame[OF step] rc show ?thesis by simp
  qed
qed

lemma save_dict_single_fail:
  assumes "save_dict E w [(k, p)] s = (Some e, s')"
  shows "files s' = files s \<and> written (calls s') = written (calls s) \<and>
         checked (calls s') = checked (calls s) @
           (if version w = None then [] else [save_path_of E w s]) \<and>
         (e = must_not_exist E w (save_path_of E w s) \<and> version w \<noteq> None \<and>
            \<not> truthy (dict_get (save_args w) ''multiFile'') \<or>
          (\<exists>m. e = EncoderError m \<or> e = FilesystemError m))"
proof (cases "fst (get_save_path E w s)")
  case (Inl e')
  with assms show ?thesis
    by (auto simp: get_save_path_eq resolved_checked split: if_splits)
next
  case (Inr q)
  let ?q = "join2 (pathsep E) (get_filepath_str E (save_path_of E w s) (protocol w)) k"
  from Inr assms have "save_to_fs E w ?q p (resolved E w s) = (Some e, s')"
    by (auto simp: get_save_path_eq split: if_splits prod.splits option.splits)
  from save_to_fs_Some(1,2,8,9)[OF this] show ?thesis
    by (simp add: resolved_checked)
qed

lemma save_body_Some:
  assumes "save_body E w data s = (Some e, s')"
  shows "\<exists>n < plot_count data. \<exists>s1.
           save_body E w (firstn n data) s = (None, s1) \<and>
           files s' = files s1 \<and> written (calls s') = written (calls s1) \<and>
           checked (calls s') = checked (calls s1) @
             (if version w = None then [] else [save_path_of E w s]) \<and>
           (e = must_not_exist E w (save_path_of E w s) \<and> version w \<noteq> None \<and>
              \<not> truthy (dict_get (save_args w) ''multiFile'') \<or>
            (\<exists>m. e = EncoderError m \<or> e = FilesystemError m)) \<and>
           (\<forall>ps. data = Plots ps \<longrightarrow> save_list E w n [ps ! n] s1 = (Some e, s')) \<and>
           (\<forall>d. data = NamedPlots d \<longrightarrow> save_dict E w [d ! n] s1 = (Some e, s')) \<and>
           (\<forall>p. data = Plot p \<longrightarrow> s1 = s)"
proof (cases data)
  case (NamedPlots d)
  with assms have "save_dict E w d s = (Some e, s')"
    by (simp add: save_body_def)
  from save_dict_Some[OF this] obtain pre x post s1 where
    d: "d = pre @ x # post" and pre: "save_dict E w pre s = (None, s1)"
    and x: "save_dict E w [x] s1 = (Some e, s')"
    by blast
  obtain k p where kp: "x = (k, p)" by (cases x)
  from save_dict_None[OF pre] have path: "save_path_of E w s1 = save_path_of E w s"
    by simp
  from save_dict_single_fail[OF x[unfolded kp]] path d pre x NamedPlots
  have "length pre < plot_count data \<and>
      save_body E w (firstn (length pre) data) s = (None, s1) \<and>
      files s' = files s1 \<and> written (calls s') = written (calls s1) \<and>
      checked (calls s') = checked (calls s1) @
        (if version w = None then [] else [save_path_of E w s]) \<and>
      (e = must_not_exist E w (save_path_of E w s) \<and> version w \<noteq> None \<and>
         \<not> truthy (dict_get (save_args w) ''multiFile'') \<or>
       (\<exists>m. e = EncoderError m \<or> e = FilesystemError m)) \<and>
      (\<forall>ps. data = Plots ps \<longrightarrow> save_list E w (length pre) [ps ! length pre] s1 = (Some e, s')) \<and>
      (\<forall>d. data = NamedPlots d \<longrightarrow> save_dict E w [d ! length pre] s1 = (Some e, s')) \<and>
      (\<forall>p. data = Plot p \<longrightarrow> s1 = s)"
    by (simp add: plot_count_def firstn_def save_body_def del: save_dict.simps)
  then show ?thesis by blast
next
  case (Plots ps)
  with assms have "save_list E w 0 ps s = (Some e, s')"
    by (simp add: save_body_def save_list_as_dict)
  from save_list_Some[OF this] obtain pre x post s1 where
    d: "ps = pre @ x # post" and pre: "save_list E w 0 pre s = (None, s1)"
    and x: "save_list E w (length pre) [x] s1 = (Some e, s')"
    by auto
  from pre have pre': "save_dict E w (map (\<lambda>(j, p). (str_of_nat j @ ''.png'', p)) (enumerate 0 pre)) s = (None, s1)"
    by (simp add: save_list_as_dict)
  from save_dict_None[OF pre'] have path: "save_path_of E w s1 = save_path_of E w s"
    by simp
  from x have x': "save_dict E w [(str_of_nat (length pre) @ ''.png'', x)] s1 = (Some e, s')"
    by (simp only: save_list_single_as_dict)
  from save_dict_single_fail[OF x'] path d pre' x Plots
  have "length pre < plot_count data \<and>
      save_body E w (firstn (length pre) data) s = (None, s1) \<and>
      files s' = files s1 \<and> written (calls s') = written (calls s1) \<and>
      checked (calls s') = checked (calls s1) @
        (if version w = None then [] else [save_path_of E w s]) \<and>
      (e = must_not_exist E w (save_path_of E w s) \<and> version w \<noteq> None \<and>
         \<not> truthy (dict_get (save_args w) ''multiFile'') \<or>
       (\<exists>m. e = EncoderError m \<or> e = FilesystemError m)) \<and>
      (\<forall>ps. data = Plots ps \<longrightarrow> save_list E w (length pre) [ps ! length pre] s1 = (Some e, s')) \<and>
      (\<forall>d. data = NamedPlots d \<longrightarrow> save_dict E w [d ! length pre] s1 = (Some e, s')) \<and>
      (\<forall>p. data = Plot p \<longrightarrow> s1 = s)"
    by (simp add: plot_count_def firstn_def save_body_def del: save_dict.simps save_list.simps)
  then show ?thesis by blast
next
  case (Plot p)
  have "0 < plot_count data \<and>
      save_body E w (firstn 0 data) s = (None, s) \<and>
      files s' = files s \<and> written (calls s') = written (calls s) \<and>
      checked (calls s') = checked (calls s) @
        (if version w = None then [] else [save_path_of E w s]) \<and>
      (e = must_not_exist E w (save_path_of E w s) \<and> version w \<noteq> None \<and>
         \<not> truthy (dict_get (save_args w) ''multiFile'') \<or>
       (\<exists>m. e = EncoderError m \<or> e = FilesystemError m)) \<and>
      (\<forall>ps. data = Plots ps \<longrightarrow> save_list E w 0 [ps ! 0] s = (Some e, s')) \<and>
      (\<forall>d. data = NamedPlots d \<longrightarrow> save_dict E w [d ! 0] s = (Some e, s')) \<and>
      (\<forall>p. data = Plot p \<longrightarrow> s = s)"
  proof (cases "version w \<noteq> None \<and> present (pathsep E) (files s) (save_path_of E w s) \<and>
              \<not> truthy (dict_get (save_args w) ''multiFile'')")
    case True
    with assms Plot have "s' = resolved E w s" "e = must_not_exist E w (save_path_of E w s)"
      by (simp_all add: save_body_def)
    with True Plot show ?thesis
      by (simp add: plot_count_def firstn_def save_body_def resolved_checked)
  next
    case False
    with assms Plot have step: "save_to_fs E w (get_filepath_str E (save_path_of E w s) (protocol w)) p
        (resolved E w s) = (Some e, s')"
      by (auto simp: save_body_def)
    from save_to_fs_Some(1,2,8,9)[OF step] Plot show ?thesis
      by (simp add: plot_count_def firstn_def save_body_def resolved_checked)
  qed
  then show ?thesis by blast
qed

lemma save_body_first_check:
  assumes "version w \<noteq> None" and "0 < plot_count data"
    and "present (pathsep E) (files s) (save_path_of E w s)"
    and "\<not> truthy (dict_get (save_args w) ''multiFile'')"
  shows "save_body E w data s = (Some (must_not_exist E w (save_path_of E w s)), resolved E w s)"
proof (cases data)
  case (Plots ps)
  with assms(2) obtain p rest where "ps = p # rest"
    by (cases ps) (auto simp: plot_count_def)
  with Plots assms(1,3,4) show ?thesis
    by (simp add: save_body_def get_save_path_eq)
next
  case (NamedPlots d)
  with assms(2) obtain k p rest where "d = (k, p) # rest"
    by (cases d) (auto simp: plot_count_def)
  with NamedPlots assms(1,3,4) show ?thesis
    by (simp add: save_body_def get_save_path_eq)
next
  case (Plot p)
  with assms(1,3,4) show ?thesis
    by (simp add: save_body_def)
qed

lemma save_dict_path:
  assumes "save_dict E w d s = (r, s')"
  shows "save_path_of E w s' = save_path_of E w s"
proof (cases r)
  case None
  with assms save_dict_None show ?thesis by blast
next
  case (Some e)
  with assms have "save_dict E w d s = (Some e, s')" by simp
  from save_dict_Some[OF this] obtain pre x post s1 where
    "d = pre @ x # post" and
    pre: "save_dict E w pre s = (None, s1)" and x: "save_dict E w [x] s1 = (Some e, s')"
    by blast
  from save_dict_None[OF pre] have p1: "save_path_of E w s1 = save_path_of E w s"
    by simp
  obtain k p where kp: "x = (k, p)" by (cases x)
  let ?q = "join2 (pathsep E) (get_filepath_str E (save_path_of E w s1) (protocol w)) k"
  have "save_path_of E w s' = save_path_of E w s1"
  proof (cases "fst (get_save_path E w s1)")
    case (Inl e')
    with x kp have "s' = resolved E w s1"
      by (auto simp: get_save_path_eq split: if_splits)
    then show ?thesis by simp
  next
    case (Inr q)
    with x kp have step: "save_to_fs E w ?q p (resolved E w s1) = (Some e, s')"
      by (auto simp: get_save_path_eq split: if_splits prod.splits option.splits)
    from save_to_fs_Some(5,6)[OF step] show ?thesis
      using save_path_of_cong[of s' "resolved E w s1" E w] by simp
  qed
  with p1 show ?thesis by simp
qed

lemma save_body_path:
  assumes "save_body E w data s = (r, s')"
  shows "save_path_of E w s' = save_path_of E w s"
proof (cases data)
  case (Plots ps)
  with assms show ?thesis
    by (auto simp: save_body_def dest: save_dict_path)
next
  case (NamedPlots d)
  with assms show ?thesis
    by (auto simp: save_body_def dest: save_dict_path)
next
  case (Plot p)
  show ?thesis
  proof (cases "version w \<noteq> None \<and> present (pathsep E) (files s) (save_path_of E w s) \<and>
              \<not> truthy (dict_get (save_args w) ''multiFile'')")
    case True
    with assms Plot have "s' = resolved E w s"
      by (simp add: save_body_def)
    then show ?thesis by simp
  next
    case False
    with assms Plot have step: "save_to_fs E w (get_filepath_str E (save_path_of E w s) (protocol w)) p
        (resolved E w s) = (r, s')"
      by (auto simp: save_body_def)
    from save_to_fs_frame(3,4)[OF step] show ?thesis
      using save_path_of_cong[of s' "resolved E w s" E w] by simp
  qed
qed

lemma save_path_of_invalidate [simp]:
  "save_path_of E w (invalidate_cache E w s) = save_path_of E w s"
  by (rule save_path_of_cong) simp_all

lemma resolve_save_version_twice:
  "fst (resolve_save_version E v (snd (resolve_save_version E v s))) =
     fst (resolve_save_version E v s)"
  by (simp add: resolve_save_version_def split: option.splits)

lemma present_below:
  "present sep fl p = (\<exists>q \<in> fst ` set fl. below sep p q)"
  by (simp add: present_keys below_def)

lemma below_trans_layout:
  assumes "below sep d base" and "(q, p) \<in> set (layout sep base data)"
  shows "below sep d q"
proof -
  from assms(2) have "q = base \<or> (\<exists>name. q = base @ sep @ name)"
    by (auto simp: layout_def split: payload.splits)
  with assms(1) show ?thesis
    by (auto simp: below_def prefix_def)
qed

lemma dict_set_fresh: "k \<notin> fst ` set d \<Longrightarrow> dict_set d k v = d @ [(k, v)]"
  by (induction d) auto

lemma dict_update_distinct:
  "distinct (map fst (d @ e)) \<Longrightarrow> dict_update d e = d @ e"
proof (induction e arbitrary: d)
  case Nil
  show ?case by simp
next
  case (Cons kv e)
  obtain k v where kv: "kv = (k, v)" by (cases kv)
  from Cons.prems kv have fresh: "k \<notin> fst ` set d"
    by auto
  from Cons.prems kv have "distinct (map fst ((d @ [(k, v)]) @ e))"
    by auto
  from Cons.IH[OF this] fresh kv show ?case
    by (simp add: dict_set_fresh)
qed

lemma agree_on_subset: "agree_on A h h2 \<Longrightarrow> B \<subseteq> A \<Longrightarrow> agree_on B h h2"
  by (auto simp: agree_on_def)

lemma agree_on_append:
  "agree_on A (h @ ext) h2 \<Longrightarrow> \<forall>a \<in> B. a < length h \<Longrightarrow> B \<subseteq> A \<Longrightarrow> agree_on B h h2"
  by (auto simp: agree_on_def nth_append)

section \<open>Copies and the caller's objects\<close>

lemma alloc_size:
  "alloc h pv = (h', v') \<Longrightarrow> \<exists>ext. h' = h @ ext \<and> length ext = nodes pv"
  "alloc_items h d = (h', ob) \<Longrightarrow> \<exists>ext. h' = h @ ext \<and> length ext = nodes_items d"
proof (induction h pv and h d arbitrary: h' v' and h' ob rule: alloc_alloc_items.induct)
  case (5 h d)
  obtain h1 ob1 where a: "alloc_items (h @ [[]]) d = (h1, ob1)"
    by (cases "alloc_items (h @ [[]]) d")
  from "5.IH"[OF a] obtain ext where "h1 = (h @ [[]]) @ ext" "length ext = nodes_items d"
    by blast
  with "5.prems" a have "h' = h @ (ob1 # ext) \<and> length (ob1 # ext) = nodes (PyDict d)"
    by (auto simp: list_update_append)
  then show ?case by blast
next
  case (7 h k v d)
  obtain h1 v1 where a: "alloc h v = (h1, v1)" by (cases "alloc h v")
  obtain h2 ob2 where b: "alloc_items h1 d = (h2, ob2)" by (cases "alloc_items h1 d")
  from "7.IH"(1)[OF a] obtain e1 where e1: "h1 = h @ e1" "length e1 = nodes v" by blast
  from "7.IH"(2)[OF a[symmetric] b] obtain e2 where e2: "h2 = h1 @ e2" "length e2 = nodes_items d"
    by blast
  from "7.prems" a b e1 e2 show ?case by auto
qed auto

lemma alloc_value:
  "alloc h pv = (h', v') \<Longrightarrow> agree_on {length h ..< length h'} h' h2 \<Longrightarrow> depth pv \<le> n \<Longrightarrow>
     value_of n h2 v' = pv"
  "alloc_items h d = (h', ob) \<Longrightarrow> agree_on {length h ..< length h'} h' h2 \<Longrightarrow>
     depth_items d \<le> n \<Longrightarrow> values_of n h2 ob = d"
proof (induction h pv and h d arbitrary: h' v' h2 n and h' ob h2 n rule: alloc_alloc_items.induct)
  case (5 h d)
  obtain h1 ob1 where a: "alloc_items (h @ [[]]) d = (h1, ob1)"
    by (cases "alloc_items (h @ [[]]) d")
  from alloc_size(2)[OF a] obtain ext where ext: "h1 = (h @ [[]]) @ ext" by blast
  from "5.prems"(1) a have h': "h' = h1[length h := ob1]" and v': "v' = HRef (length h)"
    by auto
  from "5.prems"(3) obtain m where n: "n = Suc m" and m: "depth_items d \<le> m"
    by (cases n) auto
  from "5.prems"(2) h' ext have top: "length h < length h2" "h2 ! length h = ob1"
    by (auto simp: agree_on_def)
  have "agree_on {length (h @ [[]]) ..< length h1} h1 h2"
    using "5.prems"(2) by (auto simp: agree_on_def h')
  from "5.IH"[OF a this m] top show ?case
    by (simp add: v' n values_of_def)
next
  case (7 h k v d)
  obtain h1 v1 where a: "alloc h v = (h1, v1)" by (cases "alloc h v")
  obtain h3 ob3 where b: "alloc_items h1 d = (h3, ob3)" by (cases "alloc_items h1 d")
  from alloc_size(1)[OF a] obtain e1 where e1: "h1 = h @ e1" by blast
  from alloc_size(2)[OF b] obtain e2 where e2: "h3 = h1 @ e2" by blast
  from "7.prems"(1) a b have h': "h' = h3" and ob: "ob = (k, v1) # ob3"
    by auto
  have 1: "agree_on {length h ..< length h1} h1 h2"
    using "7.prems"(2) unfolding h' e2 by (rule agree_on_append) (auto simp: e1)
  have 2: "agree_on {length h1 ..< length h3} h3 h2"
    using "7.prems"(2) unfolding h' by (rule agree_on_subset) (auto simp: e1)
  from "7.prems"(3) have d: "depth v \<le> n" "depth_items d \<le> n" by auto
  from "7.IH"(1)[OF a 1 d(1)] "7.IH"(2)[OF a[symmetric] b 2 d(2)] show ?case
    by (simp add: ob values_of_def)
qed (auto simp: values_of_def)

lemma depth_value_of: "depth (value_of n h v) \<le> Suc n"
proof (induction n arbitrary: v)
  case 0
  show ?case by (cases v) auto
next
  case (Suc n)
  have "depth_items (map (\<lambda>(k, v). (k, value_of n h v)) ob) \<le> Suc n" for ob
    by (induction ob) (auto simp: Suc.IH)
  then show ?case by (cases v) auto
qed

lemma depth_items_of: "depth_items (items_of n h a) \<le> Suc n"
proof -
  have "depth_items (map (\<lambda>(k, v). (k, value_of n h v)) ob) \<le> Suc n" for ob
    by (induction ob) (auto simp: depth_value_of)
  then show ?thesis by (simp add: items_of_def values_of_def)
qed

lemma avoids_outside: "b < lo \<or> lo + nodes_items d \<le> b \<Longrightarrow> avoids k0 b lo d"
  by (induction d arbitrary: lo) auto

lemma alloc_items_keys: "alloc_items h d = (h', ob) \<Longrightarrow> map fst ob = map fst d"
proof (induction d arbitrary: h h' ob)
  case Nil
  then show ?case by simp
next
  case (Cons kv d)
  obtain k v where kv: "kv = (k, v)" by (cases kv)
  obtain h1 v1 where a: "alloc h v = (h1, v1)" by (cases "alloc h v")
  obtain h3 ob3 where b: "alloc_items h1 d = (h3, ob3)" by (cases "alloc_items h1 d")
  from Cons.prems kv a b Cons.IH[OF b] show ?case by auto
qed

lemma filter_values:
  "alloc_items h d = (h', ob) \<Longrightarrow> agree_on ({length h ..< length h'} - {b}) h' h2 \<Longrightarrow>
     depth_items d \<le> n \<Longrightarrow> avoids k0 b (length h) d \<Longrightarrow>
     values_of n h2 (filter (\<lambda>kv. fst kv \<noteq> k0) ob) = filter (\<lambda>kv. fst kv \<noteq> k0) d"
proof (induction d arbitrary: h h' ob)
  case Nil
  then show ?case by (simp add: values_of_def)
next
  case (Cons kv d)
  obtain k v where kv: "kv = (k, v)" by (cases kv)
  obtain h1 v1 where a: "alloc h v = (h1, v1)" by (cases "alloc h v")
  obtain h3 ob3 where b: "alloc_items h1 d = (h3, ob3)" by (cases "alloc_items h1 d")
  from alloc_size(1)[OF a] obtain e1 where e1: "h1 = h @ e1" "length e1 = nodes v" by blast
  from alloc_size(2)[OF b] obtain e2 where e2: "h3 = h1 @ e2" by blast
  from Cons.prems(1) kv a b have h': "h' = h3" and ob: "ob = (k, v1) # ob3"
    by auto
  from Cons.prems(3) kv have d: "depth v \<le> n" "depth_items d \<le> n" by auto
  from Cons.prems(4) kv e1 have av: "k = k0 \<or> b \<notin> {length h ..< length h1}"
    and av': "avoids k0 b (length h1) d"
    by auto
  have 2: "agree_on ({length h1 ..< length h3} - {b}) h3 h2"
    using Cons.prems(2) unfolding h' by (rule agree_on_subset) (auto simp: e1)
  note tail = Cons.IH[OF b 2 d(2) av']
  show ?case
  proof (cases "k = k0")
    case True
    with tail show ?thesis by (simp add: ob kv)
  next
    case False
    with av have "b \<notin> {length h ..< length h1}" by simp
    then have "{length h ..< length h1} \<subseteq> {length h ..< length h'} - {b}"
      by (auto simp: h' e2)
    with Cons.prems(2) have "agree_on {length h ..< length h1} h' h2"
      by (rule agree_on_subset)
    then have "agree_on {length h ..< length h1} h1 h2"
      unfolding h' e2 by (rule agree_on_append) auto
    from alloc_value(1)[OF a this d(1)] tail False show ?thesis
      by (simp add: ob kv values_of_def)
  qed
qed

lemma popped_None:
  "alloc_items h d = (h', ob) \<Longrightarrow> map_of ob k0 = None \<Longrightarrow> map_of d k0 = None"
  by (metis alloc_items_keys map_of_eq_None_iff set_map)

lemma popped_ref:
  "alloc_items h d = (h', ob) \<Longrightarrow> map_of ob k0 = Some (HRef b) \<Longrightarrow>
     \<exists>dd hi. map_of d k0 = Some (PyDict dd) \<and> length h \<le> b \<and> b < hi \<and> hi \<le> length h' \<and>
       avoids k0 b (length h) d \<and>
       (\<forall>n h2. agree_on {Suc b ..< hi} h' h2 \<and> depth_items dd \<le> n \<longrightarrow>
          values_of n h2 (h' ! b) = dd)"
proof (induction d arbitrary: h h' ob)
  case Nil
  then show ?case by simp
next
  case (Cons kv d)
  obtain k v where kv: "kv = (k, v)" by (cases kv)
  obtain h1 v1 where a: "alloc h v = (h1, v1)" by (cases "alloc h v")
  obtain h3 ob3 where b: "alloc_items h1 d = (h3, ob3)" by (cases "alloc_items h1 d")
  from alloc_size(1)[OF a] obtain e1 where e1: "h1 = h @ e1" "length e1 = nodes v" by blast
  from alloc_size(2)[OF b] obtain e2 where e2: "h3 = h1 @ e2" by blast
  from Cons.prems(1) kv a b have h': "h' = h3" and ob: "ob = (k, v1) # ob3"
    by auto
  show ?case
  proof (cases "k = k0")
    case True
    with Cons.prems(2) ob have v1: "v1 = HRef b" by simp
    with a obtain dd where v: "v = PyDict dd" by (cases v) (auto split: prod.splits)
    obtain hx obx where x: "alloc_items (h @ [[]]) dd = (hx, obx)"
      by (cases "alloc_items (h @ [[]]) dd")
    from alloc_size(2)[OF x] obtain ex where ex: "hx = (h @ [[]]) @ ex" by blast
    from a v x v1 have h1: "h1 = hx[length h := obx]" and bb: "b = length h" by auto
    have top: "h' ! b = obx"
      by (simp add: h' e2 h1 bb ex nth_append)
    have val: "values_of n h2 (h' ! b) = dd"
      if ag: "agree_on {Suc b ..< length h1} h' h2" and dn: "depth_items dd \<le> n" for n h2
    proof -
      have "agree_on {length (h @ [[]]) ..< length hx} hx h2"
        using ag by (auto simp: agree_on_def h' e2 h1 bb nth_append)
      from alloc_value(2)[OF x this dn] show ?thesis
        by (simp add: top)
    qed
    have "length h1 = length h + nodes v"
      using e1 by simp
    moreover have "0 < nodes v"
      using v by simp
    ultimately have lt: "b < length h1" "b < length h + nodes v"
      using bb by simp_all
    then have "avoids k0 b (length h) (kv # d)"
      using True kv by (auto intro!: avoids_outside)
    with val True kv v bb lt h' e2 show ?thesis
      by (intro exI[of _ dd] exI[of _ "length h1"]) auto
  next
    case False
    with Cons.prems(2) ob have "map_of ob3 k0 = Some (HRef b)" by simp
    from Cons.IH[OF b this] obtain dd hi where
      1: "map_of d k0 = Some (PyDict dd)" and 2: "length h1 \<le> b" "b < hi" "hi \<le> length h3"
      and 3: "avoids k0 b (length h1) d"
      and 4: "\<forall>n h2. agree_on {Suc b ..< hi} h3 h2 \<and> depth_items dd \<le> n \<longrightarrow>
        values_of n h2 (h3 ! b) = dd"
      by blast
    from 2 3 e1 False kv have "avoids k0 b (length h) (kv # d)"
      by auto
    with 1 2 4 False kv e1 h' show ?thesis
      by (intro exI[of _ dd] exI[of _ hi]) auto
  qed
qed

lemma depth_le_nodes: "depth pv \<le> nodes pv" "depth_items d \<le> nodes_items d"
  by (induction pv and d rule: depth_depth_items.induct) auto

lemma values_of_simps [simp]:
  "values_of n h [] = []"
  "values_of n h ((k, v) # ob) = (k, value_of n h v) # values_of n h ob"
  "values_of n h (ob @ ob') = values_of n h ob @ values_of n h ob'"
  "map fst (values_of n h ob) = map fst ob"
  "length (values_of n h ob) = length ob"
  by (simp_all add: values_of_def split_def comp_def)

lemma values_of_filter:
  "values_of n h (filter (\<lambda>kv. fst kv \<noteq> k) ob) = filter (\<lambda>kv. fst kv \<noteq> k) (values_of n h ob)"
  by (induction ob) auto

lemma values_of_setdefault:
  "values_of n h (dict_setdefault ob k v) = dict_setdefault (values_of n h ob) k (value_of n h v)"
proof -
  have "k \<in> fst ` set (values_of n h ob) \<longleftrightarrow> k \<in> fst ` set ob"
    by (metis values_of_simps(4) set_map)
  then show ?thesis by (simp add: dict_setdefault_def)
qed

lemma kwargs_keys:
  assumes "map fst a' = map fst a" and "map fst b' = map fst b"
  shows "(kwargs a b = Inr (a @ b) \<and> kwargs a' b' = Inr (a' @ b')) \<or>
         (\<exists>e. kwargs a b = Inl e \<and> kwargs a' b' = Inl e)"
proof -
  have "set (map fst a') = set (map fst a)" using assms(1) by simp
  then have "filter (\<lambda>k. k \<in> set (map fst a')) (map fst b') =
      filter (\<lambda>k. k \<in> set (map fst a)) (map fst b)"
    using assms(2) by simp
  then show ?thesis
    unfolding kwargs_def by (auto split: list.splits)
qed

lemma caller_value:
  assumes "new_dict h0 d = (h, a)" and "length h \<le> n"
  shows "items_of n (h @ ext) a = d" and "a < length h" and "length h0 \<le> a"
proof -
  obtain hm ob where x: "alloc_items (h0 @ [[]]) d = (hm, ob)"
    by (cases "alloc_items (h0 @ [[]]) d")
  from alloc_size(2)[OF x] obtain e where e: "hm = (h0 @ [[]]) @ e" "length e = nodes_items d"
    by blast
  from assms(1) x have h: "h = hm[length h0 := ob]" and a: "a = length h0"
    by (auto simp: new_dict_def)
  have "agree_on {length (h0 @ [[]]) ..< length hm} hm (h @ ext)"
    by (auto simp: agree_on_def h nth_append)
  moreover have "depth_items d \<le> n"
    using depth_le_nodes(2)[of d] e assms(2) h by simp
  ultimately have "values_of n (h @ ext) ob = d"
    using x by (intro alloc_value(2))
  then show "items_of n (h @ ext) a = d"
    by (simp add: items_of_def h a e nth_append)
  show "a < length h" "length h0 \<le> a"
    by (simp_all add: h a e)
qed

lemma copy_tree:
  "alloc h0 pv = (h, v) \<Longrightarrow> agree_on {length h0 ..< length h} h H \<Longrightarrow>
     \<forall>x \<in> fst ` set memo. x \<notin> {length h0 ..< length h} \<Longrightarrow> depth pv \<le> n \<Longrightarrow>
     \<exists>memo'. copy_val n H memo v = (fst (alloc H pv), memo', snd (alloc H pv)) \<and>
       fst ` set memo' \<subseteq> fst ` set memo \<union> {length h0 ..< length h}"
  "alloc_items h0 d = (h, ob) \<Longrightarrow> agree_on {length h0 ..< length h} h H \<Longrightarrow>
     \<forall>x \<in> fst ` set memo. x \<notin> {length h0 ..< length h} \<Longrightarrow> depth_items d \<le> n \<Longrightarrow>
     \<exists>memo'. copy_items n H memo ob = (fst (alloc_items H d), memo', snd (alloc_items H d)) \<and>
       fst ` set memo' \<subseteq> fst ` set memo \<union> {length h0 ..< length h}"
proof (induction h0 pv and h0 d arbitrary: h v H memo n and h ob H memo n
    rule: alloc_alloc_items.induct)
  case (5 h0 d)
  obtain h1 ob1 where a: "alloc_items (h0 @ [[]]) d = (h1, ob1)"
    by (cases "alloc_items (h0 @ [[]]) d")
  from alloc_size(2)[OF a] obtain ext where ext: "h1 = (h0 @ [[]]) @ ext" by blast
  from "5.prems"(1) a have h: "h = h1[length h0 := ob1]" and v: "v = HRef (length h0)"
    by auto
  from "5.prems"(4) obtain m where n: "n = Suc m" and m: "depth_items d \<le> m"
    by (cases n) auto
  from "5.prems"(2) h ext have top: "length h0 < length H" "H ! length h0 = ob1"
    by (auto simp: agree_on_def)
  from "5.prems"(3) h ext have "length h0 \<notin> fst ` set memo"
    by auto
  then have unseen: "map_of memo (length h0) = None"
    by (simp add: map_of_eq_None_iff)
  have ag: "agree_on {length (h0 @ [[]]) ..< length h1} h1 (H @ [[]])"
    unfolding agree_on_def
  proof (intro ballI)
    fix x
    assume "x \<in> {length (h0 @ [[]]) ..< length h1}"
    then have x: "x \<in> {length h0 ..< length h}" "x \<noteq> length h0"
      by (auto simp: h)
    with "5.prems"(2) have "x < length H" "H ! x = h ! x"
      by (auto simp: agree_on_def)
    with x(2) show "x < length (H @ [[]]) \<and> (H @ [[]]) ! x = h1 ! x"
      by (simp add: h nth_append)
  qed
  have me: "\<forall>x \<in> fst ` set ((length h0, length H) # memo). x \<notin> {length (h0 @ [[]]) ..< length h1}"
    using "5.prems"(3) by (auto simp: h)
  from "5.IH"[OF a ag me m] obtain memo' where
    c: "copy_items m (H @ [[]]) ((length h0, length H) # memo) ob1 =
          (fst (alloc_items (H @ [[]]) d), memo', snd (alloc_items (H @ [[]]) d))"
    and sub: "fst ` set memo' \<subseteq> fst ` set ((length h0, length H) # memo) \<union>
          {length (h0 @ [[]]) ..< length h1}"
    by blast
  have "copy_val n H memo v = (fst (alloc H (PyDict d)), memo', snd (alloc H (PyDict d)))"
    by (simp add: v n unseen top c split: prod.splits)
  moreover have "fst ` set memo' \<subseteq> fst ` set memo \<union> {length h0 ..< length h}"
    using sub by (auto simp: h ext)
  ultimately show ?case by blast
next
  case (7 h0 k pv d)
  obtain h1 v1 where a: "alloc h0 pv = (h1, v1)" by (cases "alloc h0 pv")
  obtain h3 ob3 where b: "alloc_items h1 d = (h3, ob3)" by (cases "alloc_items h1 d")
  from alloc_size(1)[OF a] obtain e1 where e1: "h1 = h0 @ e1" by blast
  from alloc_size(2)[OF b] obtain e2 where e2: "h3 = h1 @ e2" by blast
  from "7.prems"(1) a b have h: "h = h3" and ob: "ob = (k, v1) # ob3"
    by auto
  obtain H1 w1 where A: "alloc H pv = (H1, w1)" by (cases "alloc H pv")
  obtain H3 ob3' where B: "alloc_items H1 d = (H3, ob3')" by (cases "alloc_items H1 d")
  from alloc_size(1)[OF A] obtain E1 where E1: "H1 = H @ E1" by blast
  have 1: "agree_on {length h0 ..< length h1} h1 H"
    using "7.prems"(2) unfolding h e2 by (rule agree_on_append) (auto simp: e1)
  have m1: "\<forall>x \<in> fst ` set memo. x \<notin> {length h0 ..< length h1}"
    using "7.prems"(3) by (auto simp: h e2)
  from "7.prems"(4) have dn: "depth pv \<le> n" "depth_items d \<le> n" by auto
  from "7.IH"(1)[OF a 1 m1 dn(1)] A obtain memo1 where
    c1: "copy_val n H memo v1 = (H1, memo1, w1)"
    and s1: "fst ` set memo1 \<subseteq> fst ` set memo \<union> {length h0 ..< length h1}"
    by auto
  have 2: "agree_on {length h1 ..< length h3} h3 H1"
    unfolding agree_on_def
  proof (intro ballI)
    fix x
    assume "x \<in> {length h1 ..< length h3}"
    then have "x \<in> {length h0 ..< length h}"
      by (auto simp: h e1)
    with "7.prems"(2) have "x < length H" "H ! x = h3 ! x"
      by (auto simp: agree_on_def h)
    then show "x < length H1 \<and> H1 ! x = h3 ! x"
      by (simp add: E1 nth_append)
  qed
  have m2: "\<forall>x \<in> fst ` set memo1. x \<notin> {length h1 ..< length h3}"
  proof
    fix x
    assume "x \<in> fst ` set memo1"
    with s1 have "x \<in> fst ` set memo \<or> x \<in> {length h0 ..< length h1}"
      by blast
    then show "x \<notin> {length h1 ..< length h3}"
    proof
      assume "x \<in> fst ` set memo"
      with "7.prems"(3) have "x \<notin> {length h0 ..< length h}"
        by blast
      then show ?thesis
        by (auto simp: h e1)
    next
      assume "x \<in> {length h0 ..< length h1}"
      then show ?thesis
        by auto
    qed
  qed
  from "7.IH"(2)[OF a[symmetric] b 2 m2 dn(2)] B obtain memo2 where
    c2: "copy_items n H1 memo1 ob3 = (H3, memo2, ob3')"
    and s2: "fst ` set memo2 \<subseteq> fst ` set memo1 \<union> {length h1 ..< length h3}"
    by auto
  have "copy_items n H memo ob =
      (fst (alloc_items H ((k, pv) # d)), memo2, snd (alloc_items H ((k, pv) # d)))"
    by (simp add: ob c1 c2 A B)
  moreover have "fst ` set memo2 \<subseteq> fst ` set memo \<union> {length h0 ..< length h}"
  proof
    fix x
    assume "x \<in> fst ` set memo2"
    with s2 have "x \<in> fst ` set memo1 \<or> x \<in> {length h1 ..< length h3}"
      by blast
    with s1 have "x \<in> fst ` set memo \<or> x \<in> {length h0 ..< length h1} \<or>
        x \<in> {length h1 ..< length h3}"
      by blast
    then show "x \<in> fst ` set memo \<union> {length h0 ..< length h}"
      by (auto simp: h e1 e2)
  qed
  ultimately show ?case by blast
qed auto

lemma deepcopy_tree:
  assumes "new_dict h0 d = (h, a)"
  shows "deepcopy (h @ ext) a = new_dict (h @ ext) d"
proof -
  obtain hm ob where x: "alloc_items (h0 @ [[]]) d = (hm, ob)"
    by (cases "alloc_items (h0 @ [[]]) d")
  from alloc_size(2)[OF x] obtain e where e: "hm = (h0 @ [[]]) @ e" "length e = nodes_items d"
    by blast
  from assms x have h: "h = hm[length h0 := ob]" and a: "a = length h0"
    by (auto simp: new_dict_def)
  have al: "alloc h0 (PyDict d) = (h, HRef a)"
    by (simp add: x h a)
  have ag: "agree_on {length h0 ..< length h} h (h @ ext)"
    by (auto simp: agree_on_def nth_append)
  have "depth (PyDict d) \<le> length (h @ ext)"
    using depth_le_nodes(2)[of d] e h by simp
  from copy_tree(1)[OF al ag _ this, of "[]"] obtain memo' where
    "copy_val (length (h @ ext)) (h @ ext) [] (HRef a) =
       (fst (alloc (h @ ext) (PyDict d)), memo', snd (alloc (h @ ext) (PyDict d)))"
    by auto
  then show ?thesis
    unfolding deepcopy_def new_dict_def by (simp add: split_def)
qed

lemma deepcopy_or_empty_alloc:
  assumes "new_arg h0 xv = (h, x)" and "deepcopy_or_empty (h @ ext) x = (h1, c)"
  shows "\<exists>hm ob tail. alloc_items ((h @ ext) @ [[]]) (or_empty xv) = (hm, ob) \<and>
           h1 = hm[length (h @ ext) := ob] @ tail \<and>
           c < length h1 \<and> h1 ! c = ob \<and> (c = length (h @ ext) \<or> length hm \<le> c)"
proof (cases xv)
  case None
  with assms have "h1 = (h @ ext) @ [[]]" "c = length (h @ ext)"
    by (auto simp: new_arg_def deepcopy_or_empty_def)
  then have "alloc_items ((h @ ext) @ [[]]) (or_empty xv) = ((h @ ext) @ [[]], []) \<and>
      h1 = ((h @ ext) @ [[]])[length (h @ ext) := []] @ [] \<and>
      c < length h1 \<and> h1 ! c = [] \<and> (c = length (h @ ext) \<or> length ((h @ ext) @ [[]]) \<le> c)"
    using None by (simp add: or_empty_def nth_append list_update_append)
  then show ?thesis by blast
next
  case (Some d)
  with assms(1) obtain a where nd: "new_dict h0 d = (h, a)" and x: "x = Some a"
    by (auto simp: new_arg_def split: prod.splits)
  obtain hm ob where al: "alloc_items ((h @ ext) @ [[]]) d = (hm, ob)"
    by (cases "alloc_items ((h @ ext) @ [[]]) d")
  from alloc_size(2)[OF al] obtain e where e: "hm = ((h @ ext) @ [[]]) @ e" by blast
  have dc: "deepcopy (h @ ext) a = (hm[length (h @ ext) := ob], length (h @ ext))"
    unfolding deepcopy_tree[OF nd] using al by (simp add: new_dict_def)
  have top: "hm[length (h @ ext) := ob] ! length (h @ ext) = ob"
    by (simp add: e nth_append)
  show ?thesis
  proof (cases "ob = []")
    case True
    with assms(2) x dc top have "h1 = hm[length (h @ ext) := ob] @ [[]]" "c = length hm"
      by (auto simp: deepcopy_or_empty_def)
    with al Some True have "alloc_items ((h @ ext) @ [[]]) (or_empty xv) = (hm, ob) \<and>
        h1 = hm[length (h @ ext) := ob] @ [[]] \<and>
        c < length h1 \<and> h1 ! c = ob \<and> (c = length (h @ ext) \<or> length hm \<le> c)"
      by (simp add: or_empty_def nth_append)
    then show ?thesis by blast
  next
    case False
    with assms(2) x dc top have "h1 = hm[length (h @ ext) := ob] @ []" "c = length (h @ ext)"
      by (auto simp: deepcopy_or_empty_def)
    with al Some top have "alloc_items ((h @ ext) @ [[]]) (or_empty xv) = (hm, ob) \<and>
        h1 = hm[length (h @ ext) := ob] @ [] \<and>
        c < length h1 \<and> h1 ! c = ob \<and> (c = length (h @ ext) \<or> length hm \<le> c)"
      by (simp add: or_empty_def e)
    then show ?thesis by blast
  qed
qed

lemma dict_pop_filter: "snd (dict_pop d k dflt) = filter (\<lambda>kv. fst kv \<noteq> k) d"
proof (cases "map_of d k")
  case None
  then have "\<forall>kv \<in> set d. fst kv \<noteq> k"
    by (metis map_of_eq_None_iff imageI)
  then have "filter (\<lambda>kv. fst kv \<noteq> k) d = d"
    by (simp add: filter_id_conv)
  with None show ?thesis by (simp add: dict_pop_def)
next
  case (Some v)
  then show ?thesis by (simp add: dict_pop_def)
qed

lemma dict_pop_fst:
  "fst (dict_pop d k dflt) = (case map_of d k of None \<Rightarrow> dflt | Some v \<Rightarrow> v)"
  by (simp add: dict_pop_def split: option.splits)

lemma depth_map_of: "map_of d k = Some pv \<Longrightarrow> depth pv \<le> depth_items d"
  by (induction d) (auto split: if_splits)

lemma alloc_items_len:
  assumes "alloc_items h d = (h', ob)"
  shows "length h \<le> length h'" and "depth_items d \<le> length h'"
proof -
  from alloc_size(2)[OF assms] obtain e where e: "h' = h @ e" "length e = nodes_items d" by blast
  then show "length h \<le> length h'" by simp
  from e depth_le_nodes(2)[of d] show "depth_items d \<le> length h'" by simp
qed

lemma new_arg_extends: "new_arg h x = (h', y) \<Longrightarrow> \<exists>ext. h' = h @ ext"
proof (cases x)
  case None
  then show "new_arg h x = (h', y) \<Longrightarrow> ?thesis" by (simp add: new_arg_def)
next
  case (Some d)
  assume a: "new_arg h x = (h', y)"
  obtain hm ob where x: "alloc_items (h @ [[]]) d = (hm, ob)"
    by (cases "alloc_items (h @ [[]]) d")
  from alloc_size(2)[OF x] obtain e where "hm = (h @ [[]]) @ e" by blast
  with a Some x have "h' = h @ (ob # e)"
    by (auto simp: new_arg_def new_dict_def list_update_append)
  then show ?thesis by blast
qed

lemma init_heap_refines:
  assumes A1: "new_arg h0 cred_v = (ha, cr)" and A2: "new_arg ha fs_v = (hb, fa)"
    and A3: "init_heap E hb fp fa cr sa lay ver = Inr (hw, h')"
    and A4: "agree_on {length hb ..< length h'} h' h''" and A5: "length h' \<le> N"
  shows "init E fp fs_v cred_v sv lay ver =
           Inr \<lparr>fs_args = items_of N h'' (h_fs_args hw),
                fs_open_args_save = items_of N h'' (h_fs_open_args_save hw),
                layer = lay, protocol = h_protocol hw,
                fs_kwargs = values_of N h'' (h_fs_kwargs hw),
                filepath = h_filepath hw, version = ver,
                save_args = (case sv of None \<Rightarrow> DEFAULT_SAVE_ARGS
                             | Some a \<Rightarrow> dict_update DEFAULT_SAVE_ARGS a)\<rparr> \<and>
         length hb \<le> h_fs_args hw \<and> h_fs_args hw < length h' \<and>
         length hb \<le> h_fs_open_args_save hw \<and> h_fs_open_args_save hw < length h'"
proof -
  let ?oas = "''open_args_save''"
  let ?keep = "\<lambda>kv::string \<times> _. fst kv \<noteq> ?oas"
  define cd where "cd = or_empty cred_v"
  define fd where "fd = or_empty fs_v"
  from new_arg_extends[OF A2] obtain extA where hb: "hb = ha @ extA" by blast
  obtain h1 c where d1: "deepcopy_or_empty hb cr = (h1, c)"
    by (cases "deepcopy_or_empty hb cr")
  from deepcopy_or_empty_alloc[OF A1 d1[unfolded hb]] obtain hm1 ob1 t1 where
    al1: "alloc_items (hb @ [[]]) cd = (hm1, ob1)" and h1: "h1 = hm1[length hb := ob1] @ t1"
    and c: "c < length h1" "h1 ! c = ob1" "c = length hb \<or> length hm1 \<le> c"
    unfolding cd_def hb by blast
  from alloc_size(2)[OF al1] obtain e1 where e1: "hm1 = (hb @ [[]]) @ e1" by blast
  have h1': "h1 = hb @ (ob1 # e1 @ t1)"
    by (simp add: h1 e1 list_update_append)
  obtain h2 f where d2: "deepcopy_or_empty h1 fa = (h2, f)"
    by (cases "deepcopy_or_empty h1 fa")
  from deepcopy_or_empty_alloc[OF A2 d2[unfolded h1']] obtain hm2 ob2 t2 where
    al2: "alloc_items (h1 @ [[]]) fd = (hm2, ob2)" and h2: "h2 = hm2[length h1 := ob2] @ t2"
    and f: "f < length h2" "h2 ! f = ob2" "f = length h1 \<or> length hm2 \<le> f"
    unfolding fd_def h1' by blast
  from alloc_size(2)[OF al2] obtain e2 where
    e2: "hm2 = (h1 @ [[]]) @ e2" "length e2 = nodes_items fd"
    by blast
  have len: "length h5' = length h5'" "length hb < length hm1" "length hm1 \<le> length h1"
    "length h1 < length hm2" "length hm2 \<le> length h2" "length hb \<le> c" "length h1 \<le> f"
    for h5' :: heap
    using c(3) f(3) by (auto simp: h1 h2 e1 e2)
  define rest where "rest = filter ?keep ob2"
  define popped where
    "popped = (case map_of ob2 ?oas of None \<Rightarrow> HRef (length h2) | Some v \<Rightarrow> v)"
  have pop: "dict_pop ((h2 @ [[]]) ! f) ?oas (HRef (length h2)) = (popped, rest)"
    using f by (simp add: prod_eq_iff dict_pop_fst dict_pop_filter rest_def popped_def nth_append)
  note unfold = init_heap_def d1 d2 pop Let_def
  from A3 obtain b where oa: "popped = HRef b"
    by (cases popped) (simp_all add: unfold)
  define h4 where "h4 = (h2 @ [[]])[f := rest]"
  define h5 where "h5 = h4[b := dict_setdefault (h4 ! b) ''mode'' (HStr ''wb'')]"
  from A3 obtain proto p kw where
    gp: "get_protocol_and_path E fp ver = Inr (proto, p)"
    and kw: "kwargs (h5 ! c) (h5 ! f) = Inr kw"
    and ff: "filesystem_fails E proto (values_of (length h5) h5 kw) = None"
    and hw: "hw = \<lparr>h_fs_args = f, h_fs_open_args_save = b, h_layer = lay, h_protocol = proto,
        h_fs_kwargs = kw, h_filepath = pure_posix_path E p, h_version = ver,
        h_save_args = length h5\<rparr>"
    and h': "\<exists>x. h' = h5 @ [x]"
    by (auto simp: unfold oa h4_def h5_def split: sum.splits prod.splits option.splits)
  have B: "\<exists>dd hi. dict_pop fd ?oas (PyDict []) = (PyDict dd, filter ?keep fd) \<and>
      Suc (length h1) \<le> b \<and> b \<le> length h2 \<and> (\<forall>a. b < a \<and> a < hi \<longrightarrow> a < length hm2) \<and>
      (b < length hm2 \<or> b = length h2) \<and>
      avoids ?oas b (Suc (length h1)) fd \<and> depth_items dd \<le> length hm2 \<and>
      (\<forall>n H. agree_on {Suc b ..< hi} hm2 H \<and> depth_items dd \<le> n \<longrightarrow> values_of n H (h4 ! b) = dd)"
  proof (cases "map_of ob2 ?oas")
    case None
    with oa have b: "b = length h2" by (simp add: popped_def)
    from popped_None[OF al2 None] have "dict_pop fd ?oas (PyDict []) = (PyDict [], filter ?keep fd)"
      by (simp add: prod_eq_iff dict_pop_fst dict_pop_filter)
    moreover have "h4 ! b = []"
      using f by (simp add: h4_def b nth_append)
    moreover have "avoids ?oas b (Suc (length h1)) fd"
      using len(5) by (intro avoids_outside) (simp add: b e2)
    moreover have "Suc (length h1) \<le> b"
      using len(4,5) by (simp add: b)
    ultimately show ?thesis
      by (intro exI[of _ "[]"] exI[of _ "Suc b"]) (simp add: b)
  next
    case (Some v)
    with oa have "map_of ob2 ?oas = Some (HRef b)" by (simp add: popped_def)
    from popped_ref[OF al2 this] obtain dd hi where
      1: "map_of fd ?oas = Some (PyDict dd)"
      and 2: "length (h1 @ [[]]) \<le> b" "b < hi" "hi \<le> length hm2"
      and 3: "avoids ?oas b (length (h1 @ [[]])) fd"
      and 4: "\<forall>n H. agree_on {Suc b ..< hi} hm2 H \<and> depth_items dd \<le> n \<longrightarrow>
        values_of n H (hm2 ! b) = dd"
      by blast
    from 1 have pv: "dict_pop fd ?oas (PyDict []) = (PyDict dd, filter ?keep fd)"
      by (simp add: prod_eq_iff dict_pop_fst dict_pop_filter)
    have bl: "b < length hm2" "b \<noteq> length h1" "b \<noteq> f" "b < length h2"
      using 2 f(3) len(5) by auto
    have "h4 ! b = hm2 ! b"
      using bl by (simp add: h4_def h2 nth_append)
    moreover have "depth_items dd \<le> length hm2"
      using depth_map_of[OF 1] alloc_items_len(2)[OF al2] by simp
    ultimately show ?thesis
      using pv 2 3 4 bl by (intro exI[of _ dd] exI[of _ hi]) auto
  qed
  then obtain dd hi where
    pv: "dict_pop fd ?oas (PyDict []) = (PyDict dd, filter ?keep fd)"
    and lo: "Suc (length h1) \<le> b" "b \<le> length h2" "\<forall>a. b < a \<and> a < hi \<longrightarrow> a < length hm2"
      "b < length hm2 \<or> b = length h2"
    and av: "avoids ?oas b (Suc (length h1)) fd" and dd: "depth_items dd \<le> length hm2"
    and vb: "\<forall>n H. agree_on {Suc b ..< hi} hm2 H \<and> depth_items dd \<le> n \<longrightarrow> values_of n H (h4 ! b) = dd"
    by blast
  have bf: "b \<noteq> f"
    using lo(1,4) f(1,3) by auto
  have l5: "length h5 = Suc (length h2)"
    by (simp add: h5_def h4_def)
  have h5f: "h5 ! f = rest"
    using f bf by (simp add: h5_def h4_def)
  have h5b: "h5 ! b = dict_setdefault (h4 ! b) ''mode'' (HStr ''wb'')"
    using lo(2) by (simp add: h5_def h4_def)
  have st2: "h5 ! a = hm2 ! a" if "a < length hm2" "a \<noteq> b" "a \<noteq> length h1" for a
  proof -
    from that f(3) have "a \<noteq> f" by auto
    with that show ?thesis
      by (simp add: h5_def h4_def h2 nth_append)
  qed
  have st1: "h5 ! a = h1 ! a" if "a < length h1" for a
  proof -
    from that len lo have "a < length hm2" "a \<noteq> b" "a \<noteq> length h1" by auto
    from st2[OF this] that show ?thesis
      by (simp add: e2 nth_append)
  qed
  have h5c: "h5 ! c = ob1"
    using st1[OF c(1)] c(2) by simp
  have st0: "h5 ! a = hm1 ! a" if "a < length hm1" "a \<noteq> length hb" for a
  proof -
    from that len have "a < length h1" by auto
    from st1[OF this] that show ?thesis
      by (simp add: h1 nth_append)
  qed
  have vals: "values_of n H ob1 = cd \<and> values_of n H rest = filter ?keep fd \<and>
      values_of n H (h4 ! b) = dd"
    if HA: "\<forall>a. length hb \<le> a \<and> a < length h5 \<longrightarrow> a < length H \<and> H ! a = h5 ! a"
      and n: "length h5 \<le> n" for n H
  proof -
    have "agree_on {length (hb @ [[]]) ..< length hm1} hm1 H"
      using HA st0 len l5 by (auto simp: agree_on_def)
    moreover have "depth_items cd \<le> n"
      using alloc_items_len(2)[OF al1] len l5 n by simp
    ultimately have 1: "values_of n H ob1 = cd"
      using al1 by (intro alloc_value(2))
    have ag2: "agree_on ({length (h1 @ [[]]) ..< length hm2} - {b}) hm2 H"
      using HA st2 len l5 by (auto simp: agree_on_def)
    have dn: "depth_items fd \<le> n"
      using alloc_items_len(2)[OF al2] len l5 n by simp
    have av': "avoids ?oas b (length (h1 @ [[]])) fd"
      using av by simp
    from filter_values[OF al2 ag2 dn av'] have 2: "values_of n H rest = filter ?keep fd"
      by (simp add: rest_def)
    have "agree_on {Suc b ..< hi} hm2 H"
      using ag2 by (rule agree_on_subset) (use lo in auto)
    moreover have "depth_items dd \<le> n"
      using dd len l5 n by simp
    ultimately have 3: "values_of n H (h4 ! b) = dd"
      using vb by blast
    from 1 2 3 show ?thesis by blast
  qed
  have fresh: "\<forall>a. length hb \<le> a \<and> a < length h5 \<longrightarrow> a < length h'' \<and> h'' ! a = h5 ! a"
    using A4 h' by (auto simp: agree_on_def nth_append)
  have N: "length h5 \<le> N"
    using A5 h' by auto
  note v2 = vals[OF fresh N]
  have v1: "values_of (length h5) h5 ob1 = cd \<and>
      values_of (length h5) h5 rest = filter ?keep fd \<and> values_of (length h5) h5 (h4 ! b) = dd"
    by (rule vals) simp_all
  have keys: "map fst ob1 = map fst cd" "map fst rest = map fst (filter ?keep fd)"
    using alloc_items_keys[OF al1] v1 by (simp_all, metis values_of_simps(4))
  from kwargs_keys[OF keys] kw h5c h5f have kwv: "kwargs cd (filter ?keep fd) = Inr (cd @ filter ?keep fd)"
    and kwh: "kw = ob1 @ rest"
    by auto
  have fr: "length hb \<le> f \<and> f < length h' \<and> length hb \<le> b \<and> b < length h'"
    using f lo len l5 h' by auto
  have fb: "f < length h''" "b < length h''" "h'' ! f = rest"
    "h'' ! b = dict_setdefault (h4 ! b) ''mode'' (HStr ''wb'')"
    using fresh fr f lo l5 h5f h5b by auto
  have F: "items_of N h'' f = filter ?keep fd"
    using fb v2 by (simp add: items_of_def)
  have O: "items_of N h'' b = dict_setdefault dd ''mode'' (PyStr ''wb'')"
    using fb v2 by (simp add: items_of_def values_of_setdefault)
  have K: "values_of N h'' kw = cd @ filter ?keep fd"
    using v2 by (simp add: kwh)
  have ffv: "filesystem_fails E proto (cd @ filter ?keep fd) = None"
    using ff v1 by (simp add: kwh)
  from fr show ?thesis
    by (simp add: init_def Let_def cd_def[symmetric] fd_def[symmetric] pv gp kwv ffv hw F O K)
qed

lemma init_passes:
  assumes "init E fp fs_v cred_v sv lay ver = Inr w"
  shows "fs_args w = filter (\<lambda>kv. fst kv \<noteq> ''open_args_save'') (or_empty fs_v) \<and>
         fs_kwargs w = or_empty cred_v @ fs_args w"
proof -
  obtain v r where p: "dict_pop (or_empty fs_v) ''open_args_save'' (PyDict []) = (v, r)"
    by (cases "dict_pop (or_empty fs_v) ''open_args_save'' (PyDict [])")
  from dict_pop_filter[of "or_empty fs_v" "''open_args_save''" "PyDict []"] p
  have r: "r = filter (\<lambda>kv. fst kv \<noteq> ''open_args_save'') (or_empty fs_v)"
    by simp
  from assms p have "fs_args w = r \<and> fs_kwargs w = or_empty cred_v @ r"
    by (auto simp: init_def Let_def kwargs_def
        split: pyval.splits sum.splits prod.splits option.splits list.splits)
  with r show ?thesis by simp
qed

lemma returning_save_layout:
  assumes "save E w data s = (None, s')" and "well_formed data"
  shows "let L = layout (pathsep E) (get_filepath_str E (save_path_of E w s) (protocol w)) data in
           length L = plot_count data \<and> distinct (map fst L) \<and>
           written (calls s') = written (calls s) @ expected E w L \<and>
           (\<forall>(q, p) \<in> set L.
              savefig E p (save_args w) = Inr (encoding E w p) \<and>
              content s' q = Some (encoding E w p)) \<and>
           (\<forall>q. q \<notin> fst ` set L \<longrightarrow> content s' q = content s q)"
proof -
  let ?L = "layout (pathsep E) (get_filepath_str E (save_path_of E w s) (protocol w)) data"
  from assms(1) obtain s0 where body: "save_body E w data s = (None, s0)"
    and s': "s' = invalidate_cache E w s0"
    by (auto simp: save_None_iff)
  note b = save_body_None[OF body]
  have files: "files s' = replay (expected E w ?L) (files s)"
    using b s' by simp
  have dist: "distinct (map fst ?L)"
    using assms(2) by (rule layout_distinct)
  have wr: "written (calls s') = written (calls s) @ expected E w ?L"
    using b s' by simp
  have enc: "\<forall>(q, p) \<in> set ?L. savefig E p (save_args w) = Inr (encoding E w p)"
    using b by blast
  have cont: "\<forall>(q, p) \<in> set ?L. content s' q = Some (encoding E w p)"
    using content_written[OF files dist] by blast
  have other: "\<forall>q. q \<notin> fst ` set ?L \<longrightarrow> content s' q = content s q"
    using content_other[OF files] by blast
  from dist wr enc cont other show ?thesis
    by (auto simp: Let_def)
qed

lemma save_to_fs_writable:
  assumes "writable E w q p"
  shows "\<exists>s'. save_to_fs E w q p s = (None, s')"
  using assms
  by (auto simp: writable_def save_to_fs_def fs_open_def fs_write_def split: sum.splits)

lemma save_dict_single_succeeds:
  assumes "\<not> checked_out E w s"
    and "writable E w (join2 (pathsep E) (get_filepath_str E (save_path_of E w s) (protocol w)) k) p"
  shows "\<exists>s'. save_dict E w [(k, p)] s = (None, s')"
proof -
  from save_to_fs_writable[OF assms(2)] obtain s2 where
    "save_to_fs E w (join2 (pathsep E) (get_filepath_str E (save_path_of E w s) (protocol w)) k) p
       (resolved E w s) = (None, s2)"
    by blast
  with assms(1) show ?thesis
    by (simp add: get_save_path_eq checked_out_def)
qed

lemma save_dict_succeeds:
  assumes "version w = None \<or> truthy (dict_get (save_args w) ''multiFile'')"
    and "\<forall>(k, p) \<in> set d.
      writable E w (join2 (pathsep E) (get_filepath_str E (save_path_of E w s) (protocol w)) k) p"
  shows "\<exists>s'. save_dict E w d s = (None, s')"
  using assms(2)
proof (induction d arbitrary: s)
  case Nil
  show ?case by simp
next
  case (Cons kp d)
  obtain k p where kp: "kp = (k, p)" by (cases kp)
  let ?q = "join2 (pathsep E) (get_filepath_str E (save_path_of E w s) (protocol w)) k"
  from Cons.prems kp have "writable E w ?q p" by simp
  from save_to_fs_writable[OF this] obtain s2 where
    step: "save_to_fs E w ?q p (resolved E w s) = (None, s2)"
    by blast
  have path: "save_path_of E w s2 = save_path_of E w s"
    using save_path_of_cong[of s2 "resolved E w s" E w] save_to_fs_None(2)[OF step] by simp
  from Cons.prems have "\<forall>(k, p) \<in> set d.
      writable E w (join2 (pathsep E) (get_filepath_str E (save_path_of E w s2) (protocol w)) k) p"
    by (simp add: path)
  from Cons.IH[OF this] obtain s' where "save_dict E w d s2 = (None, s')" by blast
  with step assms(1) kp show ?case
    by (auto simp: get_save_path_eq)
qed

lemma save_body_succeeds:
  assumes "\<forall>(q, p) \<in> set (layout (pathsep E)
      (get_filepath_str E (save_path_of E w s) (protocol w)) data). writable E w q p"
    and "version w = None \<or> truthy (dict_get (save_args w) ''multiFile'') \<or>
      plot_count data \<le> 1 \<and> \<not> present (pathsep E) (files s) (save_path_of E w s)"
  shows "\<exists>s'. save_body E w data s = (None, s')"
proof (cases "version w = None \<or> truthy (dict_get (save_args w) ''multiFile'')")
  case True
  show ?thesis
  proof (cases data)
    case (Plots ps)
    from assms(1) have "\<forall>(k, p) \<in> set (map (\<lambda>(j, p). (str_of_nat j @ ''.png'', p)) (enumerate 0 ps)).
        writable E w (join2 (pathsep E) (get_filepath_str E (save_path_of E w s) (protocol w)) k) p"
      unfolding Plots layout_Plots by (simp add: layout_def join2_def split_def)
    from save_dict_succeeds[OF True this] Plots show ?thesis
      by (simp add: save_body_def)
  next
    case (NamedPlots d)
    from assms(1) have "\<forall>(k, p) \<in> set d.
        writable E w (join2 (pathsep E) (get_filepath_str E (save_path_of E w s) (protocol w)) k) p"
      unfolding NamedPlots by (simp add: layout_def join2_def split_def)
    from save_dict_succeeds[OF True this] NamedPlots show ?thesis
      by (simp add: save_body_def)
  next
    case (Plot p)
    from assms(1) have "writable E w (get_filepath_str E (save_path_of E w s) (protocol w)) p"
      by (simp add: Plot layout_def)
    from save_to_fs_writable[OF this] True Plot show ?thesis
      by (auto simp: save_body_def)
  qed
next
  case False
  with assms(2) have n: "plot_count data \<le> 1"
    and np: "\<not> checked_out E w s"
    by (auto simp: checked_out_def)
  show ?thesis
  proof (cases data)
    case (Plots ps)
    show ?thesis
    proof (cases ps)
      case Nil
      with Plots show ?thesis by (simp add: save_body_def)
    next
      case (Cons p rest)
      with n Plots have ps: "ps = [p]" by (simp add: plot_count_def)
      from assms(1) have "writable E w (join2 (pathsep E)
          (get_filepath_str E (save_path_of E w s) (protocol w)) (str_of_nat 0 @ ''.png'')) p"
        by (simp add: Plots ps layout_def join2_def)
      from save_dict_single_succeeds[OF np this] Plots ps show ?thesis
        by (simp add: save_body_def del: save_dict.simps)
    qed
  next
    case (NamedPlots d)
    show ?thesis
    proof (cases d)
      case Nil
      with NamedPlots show ?thesis by (simp add: save_body_def)
    next
      case (Cons kp rest)
      obtain k p where kp: "kp = (k, p)" by (cases kp)
      from Cons n NamedPlots kp have d: "d = [(k, p)]" by (simp add: plot_count_def)
      from assms(1) have "writable E w (join2 (pathsep E)
          (get_filepath_str E (save_path_of E w s) (protocol w)) k) p"
        by (simp add: NamedPlots d layout_def join2_def)
      from save_dict_single_succeeds[OF np this] NamedPlots d show ?thesis
        by (simp add: save_body_def del: save_dict.simps)
    qed
  next
    case (Plot p)
    from assms(1) have "writable E w (get_filepath_str E (save_path_of E w s) (protocol w)) p"
      by (simp add: Plot layout_def)
    from save_to_fs_writable[OF this] np Plot show ?thesis
      by (auto simp: save_body_def checked_out_def)
  qed
qed

section \<open>Loading is unsupported\<close>

text \<open>
  C4. For every writer instance and every prior state, loading raises the
  unsupported-operation error whose message names the writer type,
  \<^verbatim>\<open>Loading not supported for `MatplotlibVersionedWriter`\<close>; no value is returned and
  the world is left as it was.
\<close>

theorem load_always_raises:
  "load w s = (Inl (DataSetError ''Loading not supported for `MatplotlibVersionedWriter`''), s)"
  by (simp add: load_def class_name_def)

section \<open>What a save writes\<close>

text \<open>
  C2 (as amended). For every payload shape, when the encoder, \<^verbatim>\<open>open\<close> and \<^verbatim>\<open>write\<close> raise
  nothing for the plots of the payload, and the writer has no version descriptor, or its
  \<^verbatim>\<open>multiFile\<close> flag is true, or the payload holds at most one plot and the versioned
  path does not exist yet: the save returns, and it has written each plot's direct encoding
  (the bytes the encoder gives with the merged encoder arguments) at the path the shape
  determines: a single plot at the resolved path itself, a sequence of N plots at the N
  different paths \<^verbatim>\<open><base>/0.png\<close> to \<^verbatim>\<open><base>/(N-1).png\<close>, a mapping at
  \<^verbatim>\<open><base>/<name>\<close> for each key, the key as it is. These are the writes of the call,
  each file holds its plot's encoding afterwards, and every other file is as before.
\<close>

theorem save_writes_direct_encodings:
  assumes "well_formed data"
    and "\<forall>(q, p) \<in> set (layout (pathsep E)
      (get_filepath_str E (save_path_of E w s) (protocol w)) data). writable E w q p"
    and "version w = None \<or> truthy (dict_get (save_args w) ''multiFile'') \<or>
      plot_count data \<le> 1 \<and> \<not> present (pathsep E) (files s) (save_path_of E w s)"
  shows "\<exists>s'. save E w data s = (None, s') \<and>
           (let L = layout (pathsep E) (get_filepath_str E (save_path_of E w s) (protocol w)) data in
              length L = plot_count data \<and> distinct (map fst L) \<and>
              written (calls s') = written (calls s) @ expected E w L \<and>
              (\<forall>(q, p) \<in> set L.
                 savefig E p (save_args w) = Inr (encoding E w p) \<and>
                 content s' q = Some (encoding E w p)) \<and>
              (\<forall>q. q \<notin> fst ` set L \<longrightarrow> content s' q = content s q))"
proof -
  from save_body_succeeds[OF assms(2,3)] obtain s0 where "save_body E w data s = (None, s0)"
    by blast
  then have run: "save E w data s = (None, invalidate_cache E w s0)"
    by (simp add: save_None_iff)
  from returning_save_layout[OF run assms(1)] run show ?thesis
    by blast
qed

theorem save_writes_direct_encodings_witness:
  "content (snd (save s3_env plain_writer (Plots [''a'', ''b'']) empty_state))
     ''test_bucket/matplotlib/0.png'' = Some ''PNG:a'' \<and>
   content (snd (save s3_env plain_writer (Plots [''a'', ''b'']) empty_state))
     ''test_bucket/matplotlib/1.png'' = Some ''PNG:b'' \<and>
   fst (save s3_env plain_writer (Plots [''a'', ''b'']) empty_state) = None \<and>
   content (snd (save s3_env (multi_file_writer True)
       (NamedPlots [(''blue'', ''a''), (''red'', ''b'')]) empty_state))
     ''test_bucket/matplotlib/v1/matplotlib/red'' = Some ''PNG:b'' \<and>
   fst (save s3_env (multi_file_writer True)
       (NamedPlots [(''blue'', ''a''), (''red'', ''b'')]) empty_state) = None \<and>
   content (snd (save s3_env versioned_writer (Plot ''a'') empty_state))
     ''test_bucket/matplotlib/v1/matplotlib'' = Some ''PNG:a'' \<and>
   fst (save s3_env versioned_writer (Plot ''a'') empty_state) = None"
proof -
  let ?l = "Plots [''a'', ''b'']"
  let ?d = "NamedPlots [(''blue'', ''a''), (''red'', ''b'')]"
  let ?m = "multi_file_writer True"
  have enc: "encoding s3_env w ''a'' = ''PNG:a''" "encoding s3_env w ''b'' = ''PNG:b''" for w
    by (simp_all add: encoding_def s3_env_def)
  have wr: "writable s3_env w q ''a''" "writable s3_env w q ''b''" for w q
    by (simp_all add: writable_def s3_env_def)
  have wf: "well_formed ?l" "well_formed ?d" "well_formed (Plot ''a'')"
    by (simp_all add: well_formed_def)
  have L1: "layout (pathsep s3_env)
      (get_filepath_str s3_env (save_path_of s3_env plain_writer empty_state) (protocol plain_writer))
      ?l = [(''test_bucket/matplotlib/0.png'', ''a''), (''test_bucket/matplotlib/1.png'', ''b'')]"
    by (simp add: layout_def save_path_of_def s3_defs)
  have L2: "layout (pathsep s3_env)
      (get_filepath_str s3_env (save_path_of s3_env ?m empty_state) (protocol ?m)) ?d =
      [(''test_bucket/matplotlib/v1/matplotlib/blue'', ''a''),
       (''test_bucket/matplotlib/v1/matplotlib/red'', ''b'')]"
    by (simp add: layout_def save_path_of_def save_version_of_def multi_file_writer_def s3_defs)
  have L3: "layout (pathsep s3_env)
      (get_filepath_str s3_env (save_path_of s3_env versioned_writer empty_state)
        (protocol versioned_writer)) (Plot ''a'') =
      [(''test_bucket/matplotlib/v1/matplotlib'', ''a'')]"
    by (simp add: layout_def save_path_of_def save_version_of_def s3_defs)
  have c1: "version plain_writer = None \<or> truthy (dict_get (save_args plain_writer) ''multiFile'') \<or>
      plot_count ?l \<le> 1 \<and>
      \<not> present (pathsep s3_env) (files empty_state) (save_path_of s3_env plain_writer empty_state)"
    by (simp add: plain_writer_def)
  have c2: "version ?m = None \<or> truthy (dict_get (save_args ?m) ''multiFile'') \<or>
      plot_count ?d \<le> 1 \<and>
      \<not> present (pathsep s3_env) (files empty_state) (save_path_of s3_env ?m empty_state)"
    by (simp add: multi_file_writer_def dict_get_def s3_defs)
  have c3: "version versioned_writer = None \<or>
      truthy (dict_get (save_args versioned_writer) ''multiFile'') \<or>
      plot_count (Plot ''a'') \<le> 1 \<and>
      \<not> present (pathsep s3_env) (files empty_state)
        (save_path_of s3_env versioned_writer empty_state)"
    by (simp add: plot_count_def present_def empty_state_def)
  from save_writes_direct_encodings[OF wf(1) _ c1] wr
  have 1: "fst (save s3_env plain_writer ?l empty_state) = None \<and>
      content (snd (save s3_env plain_writer ?l empty_state)) ''test_bucket/matplotlib/0.png'' =
        Some ''PNG:a'' \<and>
      content (snd (save s3_env plain_writer ?l empty_state)) ''test_bucket/matplotlib/1.png'' =
        Some ''PNG:b''"
    unfolding L1 Let_def by (auto simp: enc)
  from save_writes_direct_encodings[OF wf(2) _ c2] wr
  have 2: "fst (save s3_env ?m ?d empty_state) = None \<and>
      content (snd (save s3_env ?m ?d empty_state)) ''test_bucket/matplotlib/v1/matplotlib/red'' =
        Some ''PNG:b''"
    unfolding L2 Let_def by (auto simp: enc)
  from save_writes_direct_encodings[OF wf(3) _ c3] wr
  have 3: "fst (save s3_env versioned_writer (Plot ''a'') empty_state) = None \<and>
      content (snd (save s3_env versioned_writer (Plot ''a'') empty_state))
        ''test_bucket/matplotlib/v1/matplotlib'' = Some ''PNG:a''"
    unfolding L3 Let_def by (auto simp: enc)
  from 1 2 3 show ?thesis by blast
qed

theorem save_writes_direct_encodings_counterexample:
  "writable s3_env versioned_writer ''test_bucket/matplotlib/v1/matplotlib/blue'' ''a'' \<and>
   writable s3_env versioned_writer ''test_bucket/matplotlib/v1/matplotlib/red'' ''b'' \<and>
   fst (save s3_env versioned_writer (NamedPlots [(''blue'', ''a''), (''red'', ''b'')])
     empty_state) =
     Some (must_not_exist s3_env versioned_writer ''test_bucket/matplotlib/v1/matplotlib'') \<and>
   files (snd (save s3_env versioned_writer (NamedPlots [(''blue'', ''a''), (''red'', ''b'')])
     empty_state)) = [(''test_bucket/matplotlib/v1/matplotlib/blue'', ''PNG:a'')]"
  by (simp add: run_defs s3_defs writable_def)

section \<open>Cache invalidation\<close>

text \<open>
  C7. After every save that returns, the filesystem's cache entry for the unversioned
  declared path has been invalidated, in one \<^verbatim>\<open>invalidate_cache\<close> call for that path and
  none for a resolved sub-path; \<^verbatim>\<open>release\<close> does the same; every other cache entry is
  as it was.
\<close>

theorem cache_invalidation:
  "(save E w data s = (None, s') \<longrightarrow>
      dircache s' = removeAll (declared E w) (dircache s) \<and>
      invalidated (calls s') = invalidated (calls s) @ [declared E w]) \<and>
   dircache (release E w s) = removeAll (declared E w) (dircache s) \<and>
   invalidated (calls (release E w s)) = invalidated (calls s) @ [declared E w]"
proof -
  have "dircache s' = removeAll (declared E w) (dircache s) \<and>
      invalidated (calls s') = invalidated (calls s) @ [declared E w]"
    if "save E w data s = (None, s')"
  proof -
    from that obtain s0 where body: "save_body E w data s = (None, s0)"
      and s': "s' = invalidate_cache E w s0"
      by (auto simp: save_None_iff)
    from save_body_frame[OF body] s' show ?thesis by simp
  qed
  then show ?thesis
    by (simp add: release_def base_release_def declared_def invalidate_cache_def
        fs_invalidate_cache_def)
qed

theorem cache_invalidation_witness:
  "save s3_env versioned_writer (Plot ''a'')
     (empty_state\<lparr>dircache := [''test_bucket/matplotlib'', ''test_bucket/other'']\<rparr>) =
     (None, snd (save s3_env versioned_writer (Plot ''a'')
        (empty_state\<lparr>dircache := [''test_bucket/matplotlib'', ''test_bucket/other'']\<rparr>))) \<and>
   dircache (snd (save s3_env versioned_writer (Plot ''a'')
     (empty_state\<lparr>dircache := [''test_bucket/matplotlib'', ''test_bucket/other'']\<rparr>))) =
     [''test_bucket/other''] \<and>
   invalidated (calls (snd (save s3_env versioned_writer (Plot ''a'')
     (empty_state\<lparr>dircache := [''test_bucket/matplotlib'', ''test_bucket/other'']\<rparr>)))) =
     [''test_bucket/matplotlib'']"
proof -
  let ?s = "empty_state\<lparr>dircache := [''test_bucket/matplotlib'', ''test_bucket/other'']\<rparr>"
  let ?s' = "snd (save s3_env versioned_writer (Plot ''a'') ?s)"
  have run: "save s3_env versioned_writer (Plot ''a'') ?s = (None, ?s')"
    by (simp add: run_defs s3_defs)
  have d: "declared s3_env versioned_writer = ''test_bucket/matplotlib''"
    by (simp add: declared_def s3_defs)
  have s: "dircache ?s = [''test_bucket/matplotlib'', ''test_bucket/other'']"
    "invalidated (calls ?s) = []"
    by (simp_all add: empty_state_def)
  from cache_invalidation[of s3_env versioned_writer "Plot ''a''" ?s ?s'] run
  have "dircache ?s' = removeAll (declared s3_env versioned_writer) (dircache ?s) \<and>
      invalidated (calls ?s') = invalidated (calls ?s) @ [declared s3_env versioned_writer]"
    by blast
  then have "dircache ?s' = [''test_bucket/other''] \<and>
      invalidated (calls ?s') = [''test_bucket/matplotlib'']"
    unfolding d s by simp
  with run show ?thesis by blast
qed

section \<open>Plain mode\<close>

text \<open>
  C6. For a writer constructed without a version descriptor, path resolution returns the
  declared path unchanged and touches nothing, so every save, whether it returns or
  raises, writes only at the layout paths of the declared path, in their order.
\<close>

theorem plain_mode_path:
  assumes "version w = None"
  shows "get_save_path E w s = (Inr (filepath w), s) \<and>
         (\<forall>data r s'. save E w data s = (r, s') \<longrightarrow>
            (\<exists>n \<le> plot_count data.
               (r = None \<longrightarrow> n = plot_count data) \<and>
               written (calls s') = written (calls s) @
                 expected E w (take n (layout (pathsep E) (declared E w) data))))"
proof -
  have path: "save_path_of E w s = filepath w"
    using assms by (simp add: save_path_of_def)
  have "\<exists>n \<le> plot_count data.
      (r = None \<longrightarrow> n = plot_count data) \<and>
      written (calls s') = written (calls s) @
        expected E w (take n (layout (pathsep E) (declared E w) data))"
    if run: "save E w data s = (r, s')" for data r s'
  proof (cases r)
    case None
    with run obtain s0 where body: "save_body E w data s = (None, s0)"
      and s': "s' = invalidate_cache E w s0"
      by (auto simp: save_None_iff)
    from save_body_None[OF body] s' None path have
      "plot_count data \<le> plot_count data \<and> (r = None \<longrightarrow> plot_count data = plot_count data) \<and>
       written (calls s') = written (calls s) @
         expected E w (take (plot_count data) (layout (pathsep E) (declared E w) data))"
      by (simp add: declared_def)
    then show ?thesis by blast
  next
    case (Some e)
    with run have "save_body E w data s = (Some e, s')"
      by (simp add: save_Some_iff)
    from save_body_Some[OF this] obtain n s1 where n: "n < plot_count data"
      and pre: "save_body E w (firstn n data) s = (None, s1)"
      and wr: "written (calls s') = written (calls s1)"
      by blast
    from save_body_None[OF pre] wr n Some path have
      "n \<le> plot_count data \<and> (r = None \<longrightarrow> n = plot_count data) \<and>
       written (calls s') = written (calls s) @
         expected E w (take n (layout (pathsep E) (declared E w) data))"
      by (simp add: declared_def layout_firstn)
    then show ?thesis by blast
  qed
  with assms show ?thesis
    by (simp add: get_save_path_def)
qed

theorem plain_mode_path_witness:
  "version plain_writer = None \<and>
   get_save_path s3_env plain_writer empty_state = (Inr ''test_bucket/matplotlib'', empty_state) \<and>
   written (calls (snd (save s3_env plain_writer (NamedPlots [(''blue'', ''a''), (''red'', ''bad'')])
     empty_state))) = [(''test_bucket/matplotlib/blue'', ''PNG:a'')]"
proof -
  have v: "version plain_writer = None"
    by (simp add: plain_writer_def)
  have "filepath plain_writer = ''test_bucket/matplotlib''"
    by (simp add: plain_writer_def)
  with plain_mode_path[OF v, of s3_env empty_state] v show ?thesis
    by (simp add: run_defs s3_defs)
qed

section \<open>Handles and partial saves\<close>



section \<open>The overwrite check of versioned saves\<close>

text \<open>
  C1 (as amended). For every save of at least one plot on a writer constructed with a
  version descriptor, when the filesystem reports the resolved versioned path as existing
  at the start of the call: if the encoder arguments hold no value under \<^verbatim>\<open>multiFile\<close>, or
  one that is false in Python's sense, the call raises the ``must not exist'' error before
  anything is opened or written, the files being as before; if the value is true in
  Python's sense, the filesystem is still asked, its answer is ignored, path resolution
  returns the versioned path and no save raises a \<open>DataSetError\<close>. A save of an empty
  sequence or mapping resolves no path and returns without error, having only invalidated
  the cache.
\<close>

theorem versioned_overwrite_check:
  assumes "version w = Some v" and "0 < plot_count data"
    and "present (pathsep E) (files s) (save_path_of E w s)"
  shows "(\<not> truthy (dict_get (save_args w) ''multiFile'') \<longrightarrow>
            (\<exists>s'. save E w data s = (Some (must_not_exist E w (save_path_of E w s)), s') \<and>
                  files s' = files s \<and> written (calls s') = written (calls s) \<and>
                  opened (calls s') = opened (calls s))) \<and>
         (truthy (dict_get (save_args w) ''multiFile'') \<longrightarrow>
            fst (get_save_path E w s) = Inr (save_path_of E w s) \<and>
            checked (calls (snd (get_save_path E w s))) = checked (calls s) @ [save_path_of E w s] \<and>
            (\<forall>r s' m. save E w data s = (r, s') \<longrightarrow> r \<noteq> Some (DataSetError m))) \<and>
         save E w (Plots []) s = (None, invalidate_cache E w s) \<and>
         save E w (NamedPlots []) s = (None, invalidate_cache E w s) \<and>
         checked (calls (invalidate_cache E w s)) = checked (calls s)"
proof (intro conjI impI)
  assume flag: "\<not> truthy (dict_get (save_args w) ''multiFile'')"
  from assms flag have "save_body E w data s =
      (Some (must_not_exist E w (save_path_of E w s)), resolved E w s)"
    by (intro save_body_first_check) simp_all
  then have "save E w data s = (Some (must_not_exist E w (save_path_of E w s)), resolved E w s)"
    by (simp add: save_Some_iff)
  then show "\<exists>s'. save E w data s = (Some (must_not_exist E w (save_path_of E w s)), s') \<and>
      files s' = files s \<and> written (calls s') = written (calls s) \<and>
      opened (calls s') = opened (calls s)"
    by simp
next
  assume flag: "truthy (dict_get (save_args w) ''multiFile'')"
  then show "fst (get_save_path E w s) = Inr (save_path_of E w s)"
    by (simp add: get_save_path_eq)
  from assms(1) show "checked (calls (snd (get_save_path E w s))) =
      checked (calls s) @ [save_path_of E w s]"
    by (simp add: get_save_path_eq resolved_checked)
  show "\<forall>r s' m. save E w data s = (r, s') \<longrightarrow> r \<noteq> Some (DataSetError m)"
  proof (intro allI impI notI)
    fix r s' m
    assume run: "save E w data s = (r, s')" and r: "r = Some (DataSetError m)"
    then have "save_body E w data s = (Some (DataSetError m), s')"
      by (simp add: save_Some_iff)
    from save_body_Some[OF this] flag show False
      by auto
  qed
next
  show "save E w (Plots []) s = (None, invalidate_cache E w s)"
    by (simp add: save_def)
  show "save E w (NamedPlots []) s = (None, invalidate_cache E w s)"
    by (simp add: save_def)
  show "checked (calls (invalidate_cache E w s)) = checked (calls s)"
    by (simp add: invalidate_cache_def fs_invalidate_cache_def)
qed

theorem versioned_overwrite_check_witness:
  "save s3_env versioned_writer (Plot ''a'') occupied_state =
     (Some (must_not_exist s3_env versioned_writer ''test_bucket/matplotlib/v1/matplotlib''),
      occupied_state\<lparr>calls := [Exists ''test_bucket/matplotlib/v1/matplotlib'']\<rparr>) \<and>
   fst (save s3_env (multi_file_writer True) (Plot ''a'') occupied_state) = None"
proof -
  have p: "save_path_of s3_env versioned_writer occupied_state =
      ''test_bucket/matplotlib/v1/matplotlib''"
    "save_path_of s3_env (multi_file_writer True) occupied_state =
      ''test_bucket/matplotlib/v1/matplotlib''"
    by (simp_all add: save_path_of_def save_version_of_def multi_file_writer_def s3_defs)
  have v: "version versioned_writer = Some (Version None (Some ''v1''))"
    "version (multi_file_writer True) = Some (Version None (Some ''v1''))"
    by (simp_all add: multi_file_writer_def s3_defs)
  have n: "0 < plot_count (Plot ''a'')"
    by (simp add: plot_count_def)
  have e: "present (pathsep s3_env) (files occupied_state) ''test_bucket/matplotlib/v1/matplotlib''"
    by (simp add: present_def occupied_state_def s3_defs)
  have f: "\<not> truthy (dict_get (save_args versioned_writer) ''multiFile'')"
    "truthy (dict_get (save_args (multi_file_writer True)) ''multiFile'')"
    by (simp_all add: dict_get_def multi_file_writer_def s3_defs)
  from versioned_overwrite_check[OF v(1) n, of s3_env occupied_state] e f(1)
  have "\<exists>s'. save s3_env versioned_writer (Plot ''a'') occupied_state =
      (Some (must_not_exist s3_env versioned_writer ''test_bucket/matplotlib/v1/matplotlib''), s')"
    unfolding p by blast
  then have 1: "save s3_env versioned_writer (Plot ''a'') occupied_state =
     (Some (must_not_exist s3_env versioned_writer ''test_bucket/matplotlib/v1/matplotlib''),
      occupied_state\<lparr>calls := [Exists ''test_bucket/matplotlib/v1/matplotlib'']\<rparr>)"
    by (simp add: run_defs s3_defs occupied_state_def)
  from versioned_overwrite_check[OF v(2) n, of s3_env occupied_state] e f(2)
  have "fst (get_save_path s3_env (multi_file_writer True) occupied_state) =
      Inr ''test_bucket/matplotlib/v1/matplotlib''"
    unfolding p by blast
  then have 2: "fst (save s3_env (multi_file_writer True) (Plot ''a'') occupied_state) = None"
    by (simp add: run_defs s3_defs occupied_state_def multi_file_writer_def)
  from 1 2 show ?thesis by blast
qed

theorem versioned_overwrite_check_counterexample:
  "version versioned_writer = Some (Version None (Some ''v1'')) \<and>
   present (pathsep s3_env) (files occupied_state)
     (save_path_of s3_env versioned_writer occupied_state) \<and>
   map_of (save_args versioned_writer) ''multiFile'' = None \<and>
   save s3_env versioned_writer (Plots []) occupied_state =
     (None, occupied_state\<lparr>calls := [InvalidateCache ''test_bucket/matplotlib'']\<rparr>) \<and>
   map_of (save_args (multi_file_writer False)) ''multiFile'' = Some (PyBool False) \<and>
   fst (save s3_env (multi_file_writer False) (Plot ''a'') occupied_state) =
     Some (must_not_exist s3_env (multi_file_writer False)
       ''test_bucket/matplotlib/v1/matplotlib'')"
  by (simp add: run_defs s3_defs occupied_state_def multi_file_writer_def save_path_of_def
      save_version_of_def)

section \<open>One version per save\<close>

text \<open>
  C3 (as amended). A save resolves the write path once for each element it attempts, not
  once per call: in versioned mode the filesystem is asked about the versioned path once
  per element (never for an empty collection, \<open>N\<close> times for a save of \<open>N\<close> plots that
  returns). Every resolution of one save gives the same path: the writes of the call are a
  prefix of the layout of one base path, the save path the state determines is the same
  after the call as before, the clock is read at most once (a save version is generated at
  most once), and resolving the save version again gives the identifier of the first
  resolution. So a multi-plot save produces one version, not one per file.
\<close>

theorem one_version_per_save:
  assumes "save E w data s = (r, s')"
  shows "(\<exists>k \<le> plot_count data.
            (r = None \<longrightarrow> k = plot_count data) \<and>
            checked (calls s') = checked (calls s) @
              (if version w = None then [] else replicate k (save_path_of E w s))) \<and>
         (\<exists>n \<le> plot_count data.
            (r = None \<longrightarrow> n = plot_count data) \<and>
            written (calls s') = written (calls s) @
              expected E w (take n (layout (pathsep E)
                (get_filepath_str E (save_path_of E w s) (protocol w)) data))) \<and>
         save_path_of E w s' = save_path_of E w s \<and>
         clock s \<le> clock s' \<and> clock s' \<le> Suc (clock s) \<and>
         (\<forall>v. fst (resolve_save_version E v (snd (resolve_save_version E v s))) =
              fst (resolve_save_version E v s))"
proof (cases r)
  case None
  with assms obtain s0 where body: "save_body E w data s = (None, s0)"
    and s': "s' = invalidate_cache E w s0"
    by (auto simp: save_None_iff)
  note b = save_body_None[OF body]
  note f = save_body_frame[OF body]
  have 1: "plot_count data \<le> plot_count data \<and> (r = None \<longrightarrow> plot_count data = plot_count data) \<and>
      checked (calls s') = checked (calls s) @
        (if version w = None then [] else replicate (plot_count data) (save_path_of E w s))"
    using b s' by simp
  have 2: "plot_count data \<le> plot_count data \<and> (r = None \<longrightarrow> plot_count data = plot_count data) \<and>
      written (calls s') = written (calls s) @
        expected E w (take (plot_count data) (layout (pathsep E)
          (get_filepath_str E (save_path_of E w s) (protocol w)) data))"
    using b s' by simp
  have 3: "save_path_of E w s' = save_path_of E w s"
    using b s' by simp
  have 4: "clock s \<le> clock s' \<and> clock s' \<le> Suc (clock s)"
    using f s' by simp
  from 1 2 3 4 resolve_save_version_twice[of E _ s] show ?thesis by blast
next
  case (Some e)
  with assms have body: "save_body E w data s = (Some e, s')"
    by (simp add: save_Some_iff)
  from save_body_Some[OF body] obtain n s1 where n: "n < plot_count data"
    and pre: "save_body E w (firstn n data) s = (None, s1)"
    and wr: "written (calls s') = written (calls s1)"
    and ch: "checked (calls s') = checked (calls s1) @
      (if version w = None then [] else [save_path_of E w s])"
    by blast
  note b = save_body_None[OF pre, unfolded layout_firstn[OF n]]
  note f = save_body_frame[OF body]
  have pc: "plot_count (firstn n data) = n"
    using n by (cases data) (simp_all add: firstn_def plot_count_def)
  have 1: "Suc n \<le> plot_count data \<and> (r = None \<longrightarrow> Suc n = plot_count data) \<and>
      checked (calls s') = checked (calls s) @
        (if version w = None then [] else replicate (Suc n) (save_path_of E w s))"
    using b ch n Some pc by (simp add: replicate_append_same)
  have 2: "n \<le> plot_count data \<and> (r = None \<longrightarrow> n = plot_count data) \<and>
      written (calls s') = written (calls s) @
        expected E w (take n (layout (pathsep E)
          (get_filepath_str E (save_path_of E w s) (protocol w)) data))"
    using b wr n Some by simp
  have 3: "save_path_of E w s' = save_path_of E w s"
    using body by (rule save_body_path)
  have 4: "clock s \<le> clock s' \<and> clock s' \<le> Suc (clock s)"
    using f by simp
  from 1 2 3 4 resolve_save_version_twice[of E _ s] show ?thesis by blast
qed

theorem one_version_per_save_witness:
  "save s3_env generated_writer (Plots [''a'', ''b'']) empty_state =
     (None, snd (save s3_env generated_writer (Plots [''a'', ''b'']) empty_state)) \<and>
   clock (snd (save s3_env generated_writer (Plots [''a'', ''b'']) empty_state)) \<le> 1 \<and>
   checked (calls (snd (save s3_env generated_writer (Plots [''a'', ''b'']) empty_state))) =
     [''test_bucket/matplotlib/2020-05-01T00.00.00.000Z/matplotlib'',
      ''test_bucket/matplotlib/2020-05-01T00.00.00.000Z/matplotlib''] \<and>
   written (calls (snd (save s3_env generated_writer (Plots [''a'', ''b'']) empty_state))) =
     [(''test_bucket/matplotlib/2020-05-01T00.00.00.000Z/matplotlib/0.png'', ''PNG:a''),
      (''test_bucket/matplotlib/2020-05-01T00.00.00.000Z/matplotlib/1.png'', ''PNG:b'')]"
proof -
  let ?s' = "snd (save s3_env generated_writer (Plots [''a'', ''b'']) empty_state)"
  have run: "save s3_env generated_writer (Plots [''a'', ''b'']) empty_state = (None, ?s')"
    by (simp add: run_defs s3_defs generated_writer_def)
  have c0: "clock empty_state = 0"
    by (simp add: empty_state_def)
  from one_version_per_save[OF run] have "clock ?s' \<le> Suc (clock empty_state)"
    by blast
  with c0 have 1: "clock ?s' \<le> 1" by simp
  have 2: "checked (calls ?s') =
     [''test_bucket/matplotlib/2020-05-01T00.00.00.000Z/matplotlib'',
      ''test_bucket/matplotlib/2020-05-01T00.00.00.000Z/matplotlib'']"
    by (simp add: run_defs s3_defs generated_writer_def)
  have 3: "written (calls ?s') =
     [(''test_bucket/matplotlib/2020-05-01T00.00.00.000Z/matplotlib/0.png'', ''PNG:a''),
      (''test_bucket/matplotlib/2020-05-01T00.00.00.000Z/matplotlib/1.png'', ''PNG:b'')]"
    by (simp add: run_defs s3_defs generated_writer_def)
  from run 1 2 3 show ?thesis by blast
qed

theorem one_version_per_save_counterexample:
  "save s3_env versioned_writer (Plots [''a'', ''b'']) empty_state =
     (Some (must_not_exist s3_env versioned_writer ''test_bucket/matplotlib/v1/matplotlib''),
      empty_state\<lparr>files := [(''test_bucket/matplotlib/v1/matplotlib/0.png'', ''PNG:a'')],
        calls := [Exists ''test_bucket/matplotlib/v1/matplotlib'',
                  Open ''test_bucket/matplotlib/v1/matplotlib/0.png'' [(''mode'', PyStr ''wb'')],
                  Write ''test_bucket/matplotlib/v1/matplotlib/0.png'' ''PNG:a'',
                  Close ''test_bucket/matplotlib/v1/matplotlib/0.png'',
                  Exists ''test_bucket/matplotlib/v1/matplotlib'']\<rparr>) \<and>
   checked (calls (snd (save s3_env (multi_file_writer True) (Plots [''a'', ''b'']) empty_state))) =
     [''test_bucket/matplotlib/v1/matplotlib'', ''test_bucket/matplotlib/v1/matplotlib'']"
  by (simp add: run_defs s3_defs multi_file_writer_def)

section \<open>Existence\<close>

text \<open>
  C5 (as amended). For every writer, versioned or not, \<^verbatim>\<open>_exists\<close> returns true exactly
  when the filesystem reports the unversioned declared path as present. In particular it
  returns false on a store that holds nothing, and true after a save of at least one plot
  that returned, provided the path resolved for the save is the declared path or lies below
  it, as it always does without a version descriptor. A save of an empty sequence or
  mapping returns without error, writes nothing and leaves the answer of \<^verbatim>\<open>_exists\<close> as it
  was.
\<close>

theorem exists_checks_declared_path:
  "fst (exists E w s) = present (pathsep E) (files s) (declared E w) \<and>
   (files s = [] \<longrightarrow> \<not> fst (exists E w s)) \<and>
   (save E w data s = (None, s') \<and> 0 < plot_count data \<and>
      below (pathsep E) (declared E w) (get_filepath_str E (save_path_of E w s) (protocol w)) \<longrightarrow>
      fst (exists E w s')) \<and>
   (version w = None \<longrightarrow>
      below (pathsep E) (declared E w) (get_filepath_str E (save_path_of E w s) (protocol w))) \<and>
   fst (save E w (Plots []) s) = None \<and>
   files (snd (save E w (Plots []) s)) = files s \<and>
   fst (exists E w (snd (save E w (Plots []) s))) = fst (exists E w s) \<and>
   fst (save E w (NamedPlots []) s) = None \<and>
   files (snd (save E w (NamedPlots []) s)) = files s \<and>
   fst (exists E w (snd (save E w (NamedPlots []) s))) = fst (exists E w s)"
proof -
  let ?L = "layout (pathsep E) (get_filepath_str E (save_path_of E w s) (protocol w)) data"
  have ex: "fst (exists E w t) = present (pathsep E) (files t) (declared E w)" for t
    by (simp add: exists_def fs_exists_def declared_def)
  have empty: "files s = [] \<longrightarrow> \<not> fst (exists E w s)"
    by (simp add: ex present_def)
  have after: "fst (exists E w s')"
    if run: "save E w data s = (None, s')" and n: "0 < plot_count data"
      and b: "below (pathsep E) (declared E w)
        (get_filepath_str E (save_path_of E w s) (protocol w))"
  proof -
    from run obtain s0 where body: "save_body E w data s = (None, s0)"
      and s': "s' = invalidate_cache E w s0"
      by (auto simp: save_None_iff)
    from save_body_None[OF body] s' have fl: "files s' = replay (expected E w ?L) (files s)"
      by simp
    from n have "?L \<noteq> []"
      by (metis length_layout length_0_conv less_numeral_extra(3))
    then obtain q p where qp: "(q, p) \<in> set ?L"
      by (cases ?L) auto
    from below_trans_layout[OF b qp] have bq: "below (pathsep E) (declared E w) q" .
    from qp have "q \<in> fst ` set (expected E w ?L)"
      by (force simp: expected_def)
    then have "q \<in> fst ` set (files s')"
      by (simp add: fl keys_replay)
    with bq show ?thesis
      by (auto simp: ex present_below)
  qed
  have plain: "version w = None \<longrightarrow>
      below (pathsep E) (declared E w) (get_filepath_str E (save_path_of E w s) (protocol w))"
    by (simp add: below_def declared_def save_path_of_def)
  have none: "save E w (Plots []) s = (None, invalidate_cache E w s)"
    "save E w (NamedPlots []) s = (None, invalidate_cache E w s)"
    by (simp_all add: save_def)
  have same: "files (invalidate_cache E w s) = files s"
    by (simp add: invalidate_cache_def fs_invalidate_cache_def)
  have unchanged: "fst (save E w (Plots []) s) = None \<and>
      files (snd (save E w (Plots []) s)) = files s \<and>
      fst (exists E w (snd (save E w (Plots []) s))) = fst (exists E w s) \<and>
      fst (save E w (NamedPlots []) s) = None \<and>
      files (snd (save E w (NamedPlots []) s)) = files s \<and>
      fst (exists E w (snd (save E w (NamedPlots []) s))) = fst (exists E w s)"
    by (simp add: none same ex)
  have main: "fst (exists E w s) = present (pathsep E) (files s) (declared E w) \<and>
      (files s = [] \<longrightarrow> \<not> fst (exists E w s)) \<and>
      (save E w data s = (None, s') \<and> 0 < plot_count data \<and>
         below (pathsep E) (declared E w) (get_filepath_str E (save_path_of E w s) (protocol w)) \<longrightarrow>
         fst (exists E w s')) \<and>
      (version w = None \<longrightarrow>
         below (pathsep E) (declared E w) (get_filepath_str E (save_path_of E w s) (protocol w)))"
    using ex[of s] empty after plain by blast
  from conjI[OF main unchanged] show ?thesis
    unfolding conj_assoc .
qed

theorem exists_checks_declared_path_witness:
  "fst (exists s3_env versioned_writer occupied_state) = True \<and>
   fst (exists s3_env plain_writer empty_state) = False \<and>
   fst (exists s3_env plain_writer
     (snd (save s3_env plain_writer (NamedPlots [(''blue'', ''a'')]) empty_state))) = True"
proof -
  let ?d = "NamedPlots [(''blue'', ''a'')]"
  let ?s' = "snd (save s3_env plain_writer ?d empty_state)"
  have run: "save s3_env plain_writer ?d empty_state = (None, ?s')"
    by (simp add: run_defs s3_defs)
  have n: "0 < plot_count ?d"
    by (simp add: plot_count_def)
  have v: "version plain_writer = None"
    by (simp add: plain_writer_def)
  have e: "files empty_state = []"
    by (simp add: empty_state_def)
  have p: "present (pathsep s3_env) (files occupied_state) (declared s3_env versioned_writer)"
    by (simp add: present_def declared_def occupied_state_def s3_defs)
  note t = exists_checks_declared_path[of s3_env plain_writer empty_state ?d ?s']
  from t v have "below (pathsep s3_env) (declared s3_env plain_writer)
      (get_filepath_str s3_env (save_path_of s3_env plain_writer empty_state) (protocol plain_writer))"
    by blast
  with t run n have 3: "fst (exists s3_env plain_writer ?s')"
    by blast
  from t e have 2: "\<not> fst (exists s3_env plain_writer empty_state)"
    by blast
  from exists_checks_declared_path[of s3_env versioned_writer occupied_state] p
  have 1: "fst (exists s3_env versioned_writer occupied_state)"
    by blast
  from 1 2 3 show ?thesis by simp
qed

theorem exists_checks_declared_path_counterexample:
  "save s3_env plain_writer (Plots []) empty_state =
     (None, empty_state\<lparr>calls := [InvalidateCache ''test_bucket/matplotlib'']\<rparr>) \<and>
   fst (exists s3_env plain_writer
     (snd (save s3_env plain_writer (Plots []) empty_state))) = False"
  by (simp add: run_defs s3_defs exists_def)

section \<open>Argument merging at construction\<close>

text \<open>
  C8. For every construction that returns a writer: the open arguments for saving are the
  nested \<^verbatim>\<open>open_args_save\<close> mapping of the filesystem arguments, with \<^verbatim>\<open>mode\<close> set to
  \<^verbatim>\<open>wb\<close> when the caller gave no mode (also when the caller gave no such mapping) and
  unchanged when the caller gave one; and the merged encoder arguments are the empty
  defaults overlaid by the caller's encoder arguments, that is, exactly the caller's.
\<close>

theorem init_argument_merging:
  assumes "init E filepath_arg fs_args_arg credentials save_args_arg layer_arg version_arg = Inr w"
  shows "(map_of (or_empty fs_args_arg) ''open_args_save'' = None \<longrightarrow>
            fs_open_args_save w = [(''mode'', PyStr ''wb'')]) \<and>
         (\<forall>d. map_of (or_empty fs_args_arg) ''open_args_save'' = Some (PyDict d) \<longrightarrow>
            (''mode'' \<notin> fst ` set d \<longrightarrow> fs_open_args_save w = d @ [(''mode'', PyStr ''wb'')]) \<and>
            (''mode'' \<in> fst ` set d \<longrightarrow> fs_open_args_save w = d)) \<and>
         save_args w = dict_update DEFAULT_SAVE_ARGS (or_empty save_args_arg) \<and>
         (save_args_arg = None \<longrightarrow> save_args w = []) \<and>
         (\<forall>a. save_args_arg = Some a \<and> distinct (map fst a) \<longrightarrow> save_args w = a)"
proof -
  from assms have oas: "fs_open_args_save w =
      (case fst (dict_pop (or_empty fs_args_arg) ''open_args_save'' (PyDict [])) of
         PyDict d \<Rightarrow> dict_setdefault d ''mode'' (PyStr ''wb'') | _ \<Rightarrow> [])"
    by (auto simp: init_def Let_def split: prod.splits pyval.splits sum.splits option.splits)
  from assms have sa: "save_args w = dict_update DEFAULT_SAVE_ARGS (or_empty save_args_arg)"
    by (auto simp: init_def Let_def or_empty_def
        split: prod.splits pyval.splits sum.splits option.splits)
  have 1: "map_of (or_empty fs_args_arg) ''open_args_save'' = None \<longrightarrow>
      fs_open_args_save w = [(''mode'', PyStr ''wb'')]"
    by (simp add: oas dict_pop_def dict_setdefault_def)
  have 2: "\<forall>d. map_of (or_empty fs_args_arg) ''open_args_save'' = Some (PyDict d) \<longrightarrow>
      (''mode'' \<notin> fst ` set d \<longrightarrow> fs_open_args_save w = d @ [(''mode'', PyStr ''wb'')]) \<and>
      (''mode'' \<in> fst ` set d \<longrightarrow> fs_open_args_save w = d)"
    by (simp add: oas dict_pop_def dict_setdefault_def)
  have 3: "save_args_arg = None \<longrightarrow> save_args w = []"
    by (simp add: sa or_empty_def DEFAULT_SAVE_ARGS_def)
  have 4: "\<forall>a. save_args_arg = Some a \<and> distinct (map fst a) \<longrightarrow> save_args w = a"
    using dict_update_distinct[where d = "[]::dict"] by (simp add: sa or_empty_def DEFAULT_SAVE_ARGS_def)
  from 1 2 sa 3 4 show ?thesis by blast
qed

theorem init_argument_merging_witness:
  "test_writer =
     Inr \<lparr>fs_args = [],
          fs_open_args_save = [(''mode'', PyStr ''w''), (''compression'', PyStr ''gzip'')],
          layer = None, protocol = ''s3'',
          fs_kwargs = [(''client_kwargs'', PyDict [(''aws_access_key_id'', PyStr ''testing'')])],
          filepath = ''test_bucket/matplotlib'', version = None,
          save_args = [(''k1'', PyStr ''v1''), (''index'', PyStr ''value'')]\<rparr> \<and>
   (\<exists>w. init s3_env ''s3://test_bucket/matplotlib'' None None None None None = Inr w \<and>
        fs_open_args_save w = [(''mode'', PyStr ''wb'')] \<and> save_args w = [])"
proof -
  let ?w = "\<lparr>fs_args = [],
          fs_open_args_save = [(''mode'', PyStr ''w''), (''compression'', PyStr ''gzip'')],
          layer = None, protocol = ''s3'',
          fs_kwargs = [(''client_kwargs'', PyDict [(''aws_access_key_id'', PyStr ''testing'')])],
          filepath = ''test_bucket/matplotlib'', version = None,
          save_args = [(''k1'', PyStr ''v1''), (''index'', PyStr ''value'')]\<rparr>"
  have 1: "test_writer = Inr ?w"
    by (simp add: test_writer_def init_def or_empty_def dict_pop_def dict_setdefault_def
        kwargs_def DEFAULT_SAVE_ARGS_def s3_env_def)
  obtain w0 where w0: "init s3_env ''s3://test_bucket/matplotlib'' None None None None None = Inr w0"
    by (simp add: init_def or_empty_def dict_pop_def dict_setdefault_def
        kwargs_def DEFAULT_SAVE_ARGS_def s3_env_def)
  from init_argument_merging[OF w0]
  have "fs_open_args_save w0 = [(''mode'', PyStr ''wb'')] \<and> save_args w0 = []"
    by (simp add: or_empty_def DEFAULT_SAVE_ARGS_def)
  with w0 1 show ?thesis by blast
qed

section \<open>Deep copies at construction\<close>




end
